theory Spec2Isabelle
  imports Main "HOL-Library.AList"
begin

section \<open>The rules core of weiqi.js: src/lib/board.js\<close>

subsection \<open>Colours, points and the immutable collections\<close>

text \<open>
  Modelled from the spec: the module \<^verbatim>\<open>./constants\<close> that board.js imports is not among
  the sources. The spec (section 3) gives Color as the enumeration EMPTY, BLACK, WHITE;
  the three constants are pairwise different values.
\<close>

datatype color = EMPTY | BLACK | WHITE

text \<open>
  \<^verbatim>\<open>class Point extends Immutable.Record({i: 0, j: 0})\<close>: a value with two
  numeric fields, compared by value. The coordinates are modelled as unbounded integers.
\<close>

datatype point = Point (pt_i: int) (pt_j: int)

text \<open>
  An \<^verbatim>\<open>Immutable.Map\<close> is an association list with distinct keys in insertion order:
  \<^verbatim>\<open>get(k, d)\<close> is \<^const>\<open>map_of\<close> with a default and \<^verbatim>\<open>set(k, v)\<close> is
  \<^const>\<open>AList.update\<close> (an existing key keeps its place, a new key goes to the end).
  An \<^verbatim>\<open>Immutable.Set\<close> is a list without duplicates; \<^verbatim>\<open>has\<close> is membership,
  \<^verbatim>\<open>add\<close> appends an element that is not there yet and \<^verbatim>\<open>size\<close> is the length.
\<close>

type_synonym stonemap = "(point \<times> color) list"

definition iset_add :: "'a list \<Rightarrow> 'a \<Rightarrow> 'a list" where
  "iset_add s x = (if x \<in> set s then s else s @ [x])"

definition iset_union :: "'a list \<Rightarrow> 'a list \<Rightarrow> 'a list" where
  "iset_union s t = fold (\<lambda>x acc. iset_add acc x) t s"

text \<open>
  \<^verbatim>\<open>Immutable.Range(0, size)\<close>: the integers from 0 up to but excluding \<^verbatim>\<open>size\<close>;
  when the end is below the start the library negates the step and counts downwards.
\<close>

definition irange :: "int \<Rightarrow> int list" where
  "irange sz = (if 0 \<le> sz then [0..sz - 1] else map uminus [0..- sz - 1])"

subsection \<open>Module-level helpers (lines 10 to 40)\<close>

definition inBounds :: "int \<Rightarrow> point \<Rightarrow> bool" where
  "inBounds sz p \<longleftrightarrow> pt_i p \<ge> 0 \<and> pt_i p < sz \<and> pt_j p \<ge> 0 \<and> pt_j p < sz"

definition getStone :: "stonemap \<Rightarrow> point \<Rightarrow> color" where
  "getStone sts coords = (case map_of sts coords of None \<Rightarrow> EMPTY | Some c \<Rightarrow> c)"

definition replaceStone :: "stonemap \<Rightarrow> point \<Rightarrow> color \<Rightarrow> stonemap" where
  "replaceStone sts coords v = AList.update coords v sts"

definition deltas :: "point list" where
  "deltas = [Point (- 1) 0, Point 0 1, Point 1 0, Point 0 (- 1)]"

definition getAdjacentIntersections :: "int \<Rightarrow> point \<Rightarrow> point list" where
  "getAdjacentIntersections sz coords =
     filter (\<lambda>coord. inBounds sz coord)
       (map (\<lambda>vec. Point (pt_i vec + pt_i coords) (pt_j vec + pt_j coords)) deltas)"

definition allPositions :: "int \<Rightarrow> point list" where
  "allPositions sz = concat (map (\<lambda>a. map (\<lambda>b. Point a b) (irange sz)) (irange sz))"

subsection \<open>Group search (lines 50 to 82)\<close>

text \<open>
  The body of \<^verbatim>\<open>neighbors.forEach\<close> inside \<^verbatim>\<open>search\<close>: a neighbour of the group's
  colour is pushed on the queue, any other neighbour is recorded in \<^verbatim>\<open>surrounding\<close>.
  The two mutated variables are the state that the loop threads.
\<close>

definition examine :: "stonemap \<Rightarrow> color \<Rightarrow> point \<Rightarrow> point list \<times> stonemap \<Rightarrow> point list \<times> stonemap" where
  "examine sts col n qs =
     (let state = getStone sts n in
      if state = col then (fst qs @ [n], snd qs)
      else (fst qs, AList.update n state (snd qs)))"

text \<open>The finite set of intersections of a board of the given size.\<close>

definition grid :: "int \<Rightarrow> point set" where
  "grid sz = {p. inBounds sz p}"

function search :: "stonemap \<Rightarrow> int \<Rightarrow> color \<Rightarrow> point list \<Rightarrow> point list \<Rightarrow> stonemap
    \<Rightarrow> point list \<times> stonemap" where
  "search sts sz col visited [] surr = (visited, surr)"
| "search sts sz col visited (stone # queue) surr =
     (if stone \<in> set visited then search sts sz col visited queue surr
      else
        (case fold (examine sts col) (getAdjacentIntersections sz stone) (queue, surr) of
           (queue', surr') \<Rightarrow> search sts sz col (iset_add visited stone) queue' surr'))"
  by pat_completeness auto

definition search_todo :: "int \<Rightarrow> point list \<Rightarrow> point list \<Rightarrow> nat" where
  "search_todo sz visited queue = card ((grid sz \<union> set queue) - set visited)"

termination search
proof (relation "measures [\<lambda>(sts, sz, col, visited, queue, surr). search_todo sz visited queue,
                          \<lambda>(sts, sz, col, visited, queue, surr). length queue]", goal_cases)
  case 1
  show ?case by simp
next
  case (2 sts sz col visited stone queue surr)
  then have "(grid sz \<union> set queue) - set visited = (grid sz \<union> set (stone # queue)) - set visited"
    by auto
  then show ?case by (simp add: search_todo_def)
next
  case (3 sts sz col visited stone queue surr queue' surr')
  have "fst (fold (examine sts col) ns qs) = fst qs @ filter (\<lambda>n. getStone sts n = col) ns"
    for ns qs
    by (induction ns arbitrary: qs) (simp_all add: examine_def Let_def)
  then have pushed: "set (fst (fold (examine sts col) ns qs)) \<subseteq> set (fst qs) \<union> set ns"
    for ns qs
    by auto
  have "grid sz \<subseteq> (\<lambda>(a, b). Point a b) ` ({0..<sz} \<times> {0..<sz})"
  proof
    fix p assume "p \<in> grid sz"
    then show "p \<in> (\<lambda>(a, b). Point a b) ` ({0..<sz} \<times> {0..<sz})"
      by (cases p) (auto simp: grid_def inBounds_def image_iff)
  qed
  then have "finite (grid sz)"
    by (rule finite_subset) simp
  then have fin: "finite ((grid sz \<union> set (stone # queue)) - set visited)"
    by simp
  have "set (getAdjacentIntersections sz stone) \<subseteq> grid sz"
    by (auto simp: getAdjacentIntersections_def grid_def)
  with pushed[of "getAdjacentIntersections sz stone" "(queue, surr)"] 3(2)[symmetric]
  have q': "set queue' \<subseteq> set queue \<union> grid sz"
    by auto
  have sub: "(grid sz \<union> set queue') - set (iset_add visited stone)
          \<subseteq> (grid sz \<union> set (stone # queue)) - set visited"
    using q' by (auto simp: iset_add_def)
  have a: "stone \<in> (grid sz \<union> set (stone # queue)) - set visited"
    using 3(1) by simp
  have b: "stone \<notin> (grid sz \<union> set queue') - set (iset_add visited stone)"
    by (simp add: iset_add_def)
  from sub a b have "(grid sz \<union> set queue') - set (iset_add visited stone)
          \<subset> (grid sz \<union> set (stone # queue)) - set visited"
    by blast
  with fin have "search_todo sz (iset_add visited stone) queue' < search_todo sz visited (stone # queue)"
    unfolding search_todo_def by (simp add: psubset_card_mono)
  then show ?case by simp
qed

text \<open>
  The value \<^verbatim>\<open>getGroup\<close> returns: an \<^verbatim>\<open>Immutable.Map\<close> with the keys
  \<^verbatim>\<open>liberties\<close>, \<^verbatim>\<open>stones\<close> and \<^verbatim>\<open>surrounding\<close>.
\<close>

record group =
  liberties :: nat
  stones :: "point list"
  surrounding :: stonemap

definition getGroup :: "stonemap \<Rightarrow> int \<Rightarrow> point \<Rightarrow> group" where
  "getGroup sts sz coords =
     (let col = getStone sts coords in
      case search sts sz col [] [coords] [] of
        (visited, surr) \<Rightarrow>
          (let libs = filter (\<lambda>(k, c). c = EMPTY) surr in
           \<lparr>liberties = length libs, stones = visited, surrounding = surr\<rparr>))"

subsection \<open>The board object (lines 84 to 178)\<close>

text \<open>
  The three strings that the source throws:
  \<^verbatim>\<open>"Size must be an integer greater than zero"\<close> (InvalidSize),
  \<^verbatim>\<open>"Intersection out of bounds"\<close> (OutOfBounds) and
  \<^verbatim>\<open>"Intersection occupied by existing stone"\<close> (IntersectionOccupied).
\<close>

datatype error = InvalidSize | OutOfBounds | IntersectionOccupied

text \<open>
  The object \<^verbatim>\<open>createBoard\<close> returns closes over \<^verbatim>\<open>size\<close> and \<^verbatim>\<open>stones\<close>;
  the record holds these two captured variables and the methods are functions of it.
\<close>

record board =
  b_size :: int
  b_stones :: stonemap

text \<open>An argument that JavaScript leaves \<^verbatim>\<open>undefined\<close> is \<^const>\<open>None\<close>.\<close>

definition createBoard :: "int option \<Rightarrow> stonemap option \<Rightarrow> error + board" where
  "createBoard sz sts =
     (case sz of
        None \<Rightarrow> Inl InvalidSize
      | Some n \<Rightarrow>
          if n < 0 then Inl InvalidSize
          else Inr \<lparr>b_size = n, b_stones = (case sts of None \<Rightarrow> [] | Some s \<Rightarrow> s)\<rparr>)"

text \<open>\<^verbatim>\<open>Board.getStone\<close>: the argument is the array \<^verbatim>\<open>[i, j]\<close>, here a pair.\<close>

definition board_getStone :: "board \<Rightarrow> int \<times> int \<Rightarrow> color" where
  "board_getStone b coords = getStone (b_stones b) (Point (fst coords) (snd coords))"

text \<open>The local functions and variables of \<^verbatim>\<open>play\<close>, in the order of the source.\<close>

definition opponentColor :: "color \<Rightarrow> color \<Rightarrow> bool" where
  "opponentColor col stoneColor \<longleftrightarrow> stoneColor \<noteq> col \<and> stoneColor \<noteq> EMPTY"

definition isDead :: "group \<Rightarrow> bool" where
  "isDead g \<longleftrightarrow> liberties g = 0"

text \<open>
  \<^verbatim>\<open>neighborColors\<close>: the map built from the pairs \<^verbatim>\<open>[n, getStone(newBoard, n)]\<close>.
\<close>

definition neighborColors :: "stonemap \<Rightarrow> point list \<Rightarrow> stonemap" where
  "neighborColors newBoard neighbors =
     fold (\<lambda>n m. AList.update n (getStone newBoard n) m) neighbors []"

text \<open>
  \<^verbatim>\<open>captured\<close> as first assigned (lines 129 to 133): the groups of the opponent-coloured
  neighbours, one per neighbour, of which the dead ones are kept.
\<close>

definition captured :: "stonemap \<Rightarrow> int \<Rightarrow> color \<Rightarrow> point \<Rightarrow> group list" where
  "captured newBoard sz col coords =
     filter isDead
       (map snd
         (map (\<lambda>(coord, val). (coord, getGroup newBoard sz coord))
           (filter (\<lambda>(coord, stoneColor). opponentColor col stoneColor)
             (neighborColors newBoard (getAdjacentIntersections sz coords)))))"

text \<open>\<^verbatim>\<open>captured\<close> after the suicide test (lines 136 to 138).\<close>

definition captured_final :: "stonemap \<Rightarrow> int \<Rightarrow> color \<Rightarrow> point \<Rightarrow> group list" where
  "captured_final newBoard sz col coords =
     (let capt = captured newBoard sz col coords;
          newGroup = getGroup newBoard sz coords
      in if capt = [] \<and> isDead newGroup then [newGroup] else capt)"

text \<open>The \<^verbatim>\<open>flatMap\<close> and \<^verbatim>\<open>reduce\<close> of lines 140 to 142.\<close>

definition removeCaptured :: "group list \<Rightarrow> stonemap \<Rightarrow> stonemap" where
  "removeCaptured capt newBoard =
     fold (\<lambda>stone acc. replaceStone acc stone EMPTY) (concat (map stones capt)) newBoard"

definition play :: "board \<Rightarrow> color \<Rightarrow> int \<times> int \<Rightarrow> error + board" where
  "play b col c =
     (let coords = Point (fst c) (snd c) in
      if \<not> inBounds (b_size b) coords then Inl OutOfBounds
      else if getStone (b_stones b) coords \<noteq> EMPTY then Inl IntersectionOccupied
      else
        (let newBoard = replaceStone (b_stones b) coords col;
             capt = captured_final newBoard (b_size b) col coords;
             newBoard' = removeCaptured capt newBoard
         in createBoard (Some (b_size b)) (Some newBoard')))"

text \<open>
  \<^verbatim>\<open>areaScore\<close>: the callback of \<^verbatim>\<open>positions.forEach\<close> updates the variables
  \<^verbatim>\<open>visited\<close> and \<^verbatim>\<open>score\<close>. The score object starts with the keys BLACK
  and WHITE at 0; it is a function from colours to counts (the entry at EMPTY is never
  written, see \<open>areaScore_EMPTY\<close>).
\<close>

definition areaStep :: "stonemap \<Rightarrow> int \<Rightarrow> point \<Rightarrow> point list \<times> (color \<Rightarrow> nat)
    \<Rightarrow> point list \<times> (color \<Rightarrow> nat)" where
  "areaStep sts sz coords vs =
     (let visited = fst vs; score = snd vs in
      if coords \<in> set visited then vs
      else
        (let state = getStone sts coords;
             grp = getGroup sts sz coords;
             groupStones = stones grp;
             surroundingColors = remdups (map snd (surrounding grp));
             score' =
               (if state = EMPTY then
                  (if length surroundingColors = 1
                   then score (hd surroundingColors :=
                          score (hd surroundingColors) + length groupStones)
                   else score)
                else score (state := score state + length groupStones))
         in (iset_union visited groupStones, score')))"

definition areaScore :: "board \<Rightarrow> color \<Rightarrow> nat" where
  "areaScore b =
     snd (fold (areaStep (b_stones b) (b_size b)) (allPositions (b_size b)) ([], \<lambda>c. 0))"

subsection \<open>Notions used to state the properties\<close>

text \<open>
  One step of the search relation: from a point to an adjacent intersection that holds the
  given colour. The component of a seed is what this relation reaches from it, and its
  boundary is made of the neighbours of component members that hold another colour.
  Adjacency restricted to a set of points states that a group is connected.
\<close>

definition same_adj :: "stonemap \<Rightarrow> int \<Rightarrow> color \<Rightarrow> (point \<times> point) set" where
  "same_adj sts sz col = {(x, y). y \<in> set (getAdjacentIntersections sz x) \<and> getStone sts y = col}"

definition component :: "stonemap \<Rightarrow> int \<Rightarrow> point \<Rightarrow> point set" where
  "component sts sz c = (same_adj sts sz (getStone sts c))\<^sup>* `` {c}"

definition boundary :: "stonemap \<Rightarrow> int \<Rightarrow> point \<Rightarrow> point set" where
  "boundary sts sz c =
     {n. getStone sts n \<noteq> getStone sts c
         \<and> (\<exists>v. v \<in> component sts sz c \<and> n \<in> set (getAdjacentIntersections sz v))}"

definition adj_within :: "int \<Rightarrow> point set \<Rightarrow> (point \<times> point) set" where
  "adj_within sz S = {(x, y). x \<in> S \<and> y \<in> S \<and> y \<in> set (getAdjacentIntersections sz x)}"

text \<open>
  A neighbour of the played point whose group \<^verbatim>\<open>play\<close> captures: it holds the
  opponent's colour on the tentative board and its group has no liberty there. The stones
  that a capture list removes are the members of its groups.
\<close>

definition dead_opponent :: "stonemap \<Rightarrow> int \<Rightarrow> color \<Rightarrow> point \<Rightarrow> point \<Rightarrow> bool" where
  "dead_opponent newBoard sz col coords n \<longleftrightarrow>
     n \<in> set (getAdjacentIntersections sz coords)
     \<and> getStone newBoard n \<noteq> col \<and> getStone newBoard n \<noteq> EMPTY
     \<and> liberties (getGroup newBoard sz n) = 0"

definition removed_stones :: "group list \<Rightarrow> point set" where
  "removed_stones capt = set (concat (map stones capt))"

text \<open>
  Capture lists with the duplicates taken out, comparing groups by their sets of stones:
  what the capture list would be if groups were deduplicated.
\<close>

primrec dedupGroups :: "group list \<Rightarrow> group list" where
  "dedupGroups [] = []"
| "dedupGroups (g # gs) =
     (if set (stones g) \<in> (set \<circ> stones) ` set gs then dedupGroups gs else g # dedupGroups gs)"

text \<open>
  Every key of the stones map is an intersection of the board.
\<close>

definition keys_on_board :: "board \<Rightarrow> bool" where
  "keys_on_board b \<longleftrightarrow> (\<forall>k v. map_of (b_stones b) k = Some v \<longrightarrow> inBounds (b_size b) k)"

text \<open>
  The colours around a region, \<^verbatim>\<open>group.get('surrounding').valueSeq().toSet()\<close>, as a
  set, and the intersections that count for a colour: its stones, and the empty
  intersections whose region is bordered by that colour alone.
\<close>

definition borderColors :: "stonemap \<Rightarrow> int \<Rightarrow> point \<Rightarrow> color set" where
  "borderColors sts sz p = set (map snd (surrounding (getGroup sts sz p)))"

definition counts_for :: "stonemap \<Rightarrow> int \<Rightarrow> color \<Rightarrow> point \<Rightarrow> bool" where
  "counts_for sts sz col p \<longleftrightarrow>
     (getStone sts p = col \<and> col \<noteq> EMPTY)
     \<or> (getStone sts p = EMPTY \<and> borderColors sts sz p = {col})"

subsection \<open>Loop invariants\<close>

text \<open>
  What one pass of \<^verbatim>\<open>neighbors.forEach\<close> adds to the queue and to
  \<^verbatim>\<open>surrounding\<close>, the invariant of the search loop (for the seed and its colour), and
  the invariant of the loop of \<^verbatim>\<open>areaScore\<close>.
\<close>

definition sameNeighbors :: "stonemap \<Rightarrow> int \<Rightarrow> color \<Rightarrow> point \<Rightarrow> point list" where
  "sameNeighbors sts sz col stone =
     filter (\<lambda>n. getStone sts n = col) (getAdjacentIntersections sz stone)"

definition recordOthers :: "stonemap \<Rightarrow> int \<Rightarrow> color \<Rightarrow> point \<Rightarrow> stonemap \<Rightarrow> stonemap" where
  "recordOthers sts sz col stone surr =
     fold (\<lambda>n acc. AList.update n (getStone sts n) acc)
       (filter (\<lambda>n. getStone sts n \<noteq> col) (getAdjacentIntersections sz stone)) surr"

definition search_inv :: "stonemap \<Rightarrow> int \<Rightarrow> color \<Rightarrow> point \<Rightarrow> point list \<Rightarrow> point list
    \<Rightarrow> stonemap \<Rightarrow> bool" where
  "search_inv sts sz col seed visited queue surr \<longleftrightarrow>
     distinct visited \<and> distinct (map fst surr)
     \<and> seed \<in> set visited \<union> set queue
     \<and> set visited \<union> set queue \<subseteq> (same_adj sts sz col)\<^sup>* `` {seed}
     \<and> (\<forall>v n. v \<in> set visited \<and> n \<in> set (getAdjacentIntersections sz v) \<and> getStone sts n = col
            \<longrightarrow> n \<in> set visited \<union> set queue)
     \<and> (\<forall>n. map_of surr n =
            (if getStone sts n \<noteq> col
                \<and> (\<exists>v. v \<in> set visited \<and> n \<in> set (getAdjacentIntersections sz v))
             then Some (getStone sts n) else None))"

definition area_inv :: "stonemap \<Rightarrow> int \<Rightarrow> point list \<times> (color \<Rightarrow> nat) \<Rightarrow> bool" where
  "area_inv sts sz vs \<longleftrightarrow>
     distinct (fst vs) \<and> set (fst vs) \<subseteq> grid sz
     \<and> (\<forall>q. q \<in> set (fst vs) \<longrightarrow> component sts sz q \<subseteq> set (fst vs))
     \<and> (\<forall>col. snd vs col = card {p. p \<in> set (fst vs) \<and> counts_for sts sz col p})"

subsection \<open>A caller and example positions\<close>

text \<open>
  A caller that plays a list of moves one after the other, stopping at the first error.
\<close>

fun playAll :: "error + board \<Rightarrow> (color \<times> int \<times> int) list \<Rightarrow> error + board" where
  "playAll r [] = r"
| "playAll r ((col, c) # ms) = (case r of Inl e \<Rightarrow> Inl e | Inr b \<Rightarrow> playAll (play b col c) ms)"

text \<open>
  Three 3 by 3 positions. In the first a white group of three stones in the corner has the
  corner point (0,0) as its only liberty. The second is the position of the spec's suicide
  example, built by four plays on the empty board. In the third one black move at (0,0)
  captures a white group that touches (0,0) through two neighbours, next to a white stone
  that stays.
\<close>

definition ex_group :: stonemap where
  "ex_group = [(Point 0 1, WHITE), (Point 1 1, WHITE), (Point 1 0, WHITE),
               (Point 0 2, BLACK), (Point 1 2, BLACK), (Point 2 0, BLACK), (Point 2 1, BLACK)]"

definition cross_board :: "error + board" where
  "cross_board = playAll (createBoard (Some 3) None)
     [(BLACK, (0, 1)), (BLACK, (1, 0)), (BLACK, (1, 2)), (BLACK, (2, 1))]"

definition capture_board :: board where
  "capture_board = \<lparr>b_size = 3,
     b_stones = [(Point 0 1, WHITE), (Point 1 1, WHITE), (Point 1 0, WHITE),
                 (Point 0 2, BLACK), (Point 1 2, BLACK), (Point 2 0, BLACK),
                 (Point 2 1, BLACK), (Point 2 2, WHITE)]\<rparr>"

section \<open>Basic facts\<close>

lemma grid_eq: "grid sz = (\<lambda>(a, b). Point a b) ` ({0..<sz} \<times> {0..<sz})"
proof (rule set_eqI)
  fix p
  show "p \<in> grid sz \<longleftrightarrow> p \<in> (\<lambda>(a, b). Point a b) ` ({0..<sz} \<times> {0..<sz})"
  proof (cases p)
    case (Point a b)
    then show ?thesis
      by (auto simp: grid_def inBounds_def image_iff)
  qed
qed

lemma finite_grid: "finite (grid sz)"
  by (simp add: grid_eq)

lemma adjacent_in_grid: "n \<in> set (getAdjacentIntersections sz p) \<Longrightarrow> n \<in> grid sz"
  by (simp add: getAdjacentIntersections_def grid_def)

lemma fold_examine:
  "fold (examine sts col) ns (q, s) =
     (q @ filter (\<lambda>n. getStone sts n = col) ns,
      fold (\<lambda>n acc. AList.update n (getStone sts n) acc)
        (filter (\<lambda>n. getStone sts n \<noteq> col) ns) s)"
  by (induction ns arbitrary: q s) (simp_all add: examine_def Let_def)

lemma getStone_replaceStone:
  "getStone (replaceStone sts p v) q = (if q = p then v else getStone sts q)"
  by (simp add: getStone_def replaceStone_def update_conv')

lemma map_of_replaceStone:
  "map_of (replaceStone sts p v) = (map_of sts)(p \<mapsto> v)"
  by (simp add: replaceStone_def update_conv')

section \<open>Correctness of the group search\<close>

lemma search_skip:
  "stone \<in> set visited \<Longrightarrow>
   search sts sz col visited (stone # queue) surr = search sts sz col visited queue surr"
  by simp

lemma search_visit:
  "stone \<notin> set visited \<Longrightarrow>
   search sts sz col visited (stone # queue) surr =
     search sts sz col (visited @ [stone]) (queue @ sameNeighbors sts sz col stone)
       (recordOthers sts sz col stone surr)"
  by (simp add: fold_examine iset_add_def sameNeighbors_def recordOthers_def)

lemma search_steps_induct [case_names empty seen fresh]:
  assumes "\<And>visited surr. P visited [] surr"
    and "\<And>visited stone queue surr.
           stone \<in> set visited \<Longrightarrow> P visited queue surr \<Longrightarrow> P visited (stone # queue) surr"
    and "\<And>visited stone queue surr.
           stone \<notin> set visited \<Longrightarrow>
           P (visited @ [stone]) (queue @ sameNeighbors sts sz col stone)
             (recordOthers sts sz col stone surr) \<Longrightarrow>
           P visited (stone # queue) surr"
  shows "P visited queue surr"
proof -
  have "s = sts \<longrightarrow> z = sz \<longrightarrow> c = col \<longrightarrow> P v q r" for s z c v q r
  proof (induction s z c v q r rule: search.induct)
    case (1 sts sz col visited surr)
    show ?case using assms(1) by simp
  next
    case (2 s z c visited stone queue surr)
    show ?case
    proof (intro impI)
      assume eqs: "s = sts" "z = sz" "c = col"
      show "P visited (stone # queue) surr"
      proof (cases "stone \<in> set visited")
        case True
        with 2(1) eqs have "P visited queue surr" by simp
        with True show ?thesis by (rule assms(2))
      next
        case False
        have "P (iset_add visited stone) (queue @ sameNeighbors sts sz col stone)
                (recordOthers sts sz col stone surr)"
          using 2(2)[OF False fold_examine[symmetric]] eqs
          by (simp add: sameNeighbors_def recordOthers_def)
        with False show ?thesis
          by (intro assms(3)) (simp_all add: iset_add_def)
      qed
    qed
  qed
  then show ?thesis by simp
qed

lemma map_of_fold_update:
  "map_of (fold (\<lambda>n acc. AList.update n (f n) acc) ns s) k =
     (if k \<in> set ns then Some (f k) else map_of s k)"
  by (induction ns arbitrary: s) (simp_all add: update_conv')

lemma distinct_fold_update:
  "distinct (map fst s) \<Longrightarrow> distinct (map fst (fold (\<lambda>n acc. AList.update n (f n) acc) ns s))"
  by (induction ns arbitrary: s) (simp_all add: distinct_update)

lemma map_of_recordOthers:
  "map_of (recordOthers sts sz col stone surr) n =
     (if n \<in> set (getAdjacentIntersections sz stone) \<and> getStone sts n \<noteq> col
      then Some (getStone sts n) else map_of surr n)"
  by (simp add: recordOthers_def map_of_fold_update)

lemma search_inv_skip:
  assumes "search_inv sts sz col seed visited (stone # queue) surr" and "stone \<in> set visited"
  shows "search_inv sts sz col seed visited queue surr"
  using assms unfolding search_inv_def by auto

lemma search_inv_visit:
  assumes inv: "search_inv sts sz col seed visited (stone # queue) surr"
    and new: "stone \<notin> set visited"
  shows "search_inv sts sz col seed (visited @ [stone]) (queue @ sameNeighbors sts sz col stone)
           (recordOthers sts sz col stone surr)"
proof -
  let ?R = "same_adj sts sz col"
  from inv have d: "distinct visited" and ds: "distinct (map fst surr)"
    and seed: "seed \<in> set visited \<union> set (stone # queue)"
    and sub: "set visited \<union> set (stone # queue) \<subseteq> ?R\<^sup>* `` {seed}"
    and cl: "\<And>v n. v \<in> set visited \<Longrightarrow> n \<in> set (getAdjacentIntersections sz v) \<Longrightarrow>
               getStone sts n = col \<Longrightarrow> n \<in> set visited \<union> set (stone # queue)"
    and sm: "\<And>n. map_of surr n =
            (if getStone sts n \<noteq> col
                \<and> (\<exists>v. v \<in> set visited \<and> n \<in> set (getAdjacentIntersections sz v))
             then Some (getStone sts n) else None)"
    unfolding search_inv_def by blast+
  have 1: "distinct (visited @ [stone])" using d new by simp
  have 2: "distinct (map fst (recordOthers sts sz col stone surr))"
    unfolding recordOthers_def using ds by (rule distinct_fold_update)
  have 3: "seed \<in> set (visited @ [stone]) \<union> set (queue @ sameNeighbors sts sz col stone)"
    using seed by auto
  have st: "(seed, stone) \<in> ?R\<^sup>*" using sub by auto
  have "(seed, n) \<in> ?R\<^sup>*" if "n \<in> set (sameNeighbors sts sz col stone)" for n
  proof -
    from that have "(stone, n) \<in> ?R" by (simp add: sameNeighbors_def same_adj_def)
    with st show ?thesis by (rule rtrancl_into_rtrancl)
  qed
  then have 4: "set (visited @ [stone]) \<union> set (queue @ sameNeighbors sts sz col stone)
                  \<subseteq> ?R\<^sup>* `` {seed}"
    using sub by auto
  have 5: "n \<in> set (visited @ [stone]) \<union> set (queue @ sameNeighbors sts sz col stone)"
    if "v \<in> set (visited @ [stone]) \<and> n \<in> set (getAdjacentIntersections sz v) \<and> getStone sts n = col"
    for v n
  proof (cases "v = stone")
    case True
    with that show ?thesis by (simp add: sameNeighbors_def)
  next
    case False
    with that cl[of v n] show ?thesis by auto
  qed
  have 6: "map_of (recordOthers sts sz col stone surr) n =
            (if getStone sts n \<noteq> col
                \<and> (\<exists>v. v \<in> set (visited @ [stone]) \<and> n \<in> set (getAdjacentIntersections sz v))
             then Some (getStone sts n) else None)" for n
    unfolding map_of_recordOthers sm by auto
  show ?thesis
    unfolding search_inv_def using 1 2 3 4 5 6 by blast
qed

lemma search_inv_result:
  "search_inv sts sz col seed visited queue surr \<Longrightarrow>
   search_inv sts sz col seed (fst (search sts sz col visited queue surr)) []
     (snd (search sts sz col visited queue surr))"
proof (induction visited queue surr rule: search_steps_induct[where sts = sts and sz = sz and col = col])
  case (empty visited surr)
  then show ?case by simp
next
  case (seen visited stone queue surr)
  then show ?case by (simp add: search_inv_skip search_skip del: search.simps)
next
  case (fresh visited stone queue surr)
  then show ?case by (simp add: search_inv_visit search_visit del: search.simps)
qed

lemma search_inv_closed:
  assumes "search_inv sts sz col seed visited [] surr"
  shows "set visited = (same_adj sts sz col)\<^sup>* `` {seed}"
proof
  show "set visited \<subseteq> (same_adj sts sz col)\<^sup>* `` {seed}"
    using assms unfolding search_inv_def by simp
  have seed: "seed \<in> set visited" using assms unfolding search_inv_def by simp
  have cl: "\<And>v n. v \<in> set visited \<Longrightarrow> (v, n) \<in> same_adj sts sz col \<Longrightarrow> n \<in> set visited"
    using assms unfolding search_inv_def same_adj_def by auto
  have "y \<in> set visited" if "(seed, y) \<in> (same_adj sts sz col)\<^sup>*" for y
    using that by (induction rule: rtrancl_induct) (auto intro: seed cl)
  then show "(same_adj sts sz col)\<^sup>* `` {seed} \<subseteq> set visited" by auto
qed

lemma search_inv_init: "search_inv sts sz col seed [] [seed] []"
  unfolding search_inv_def by simp

lemma getGroup_inv:
  "search_inv sts sz (getStone sts c) c (stones (getGroup sts sz c)) []
     (surrounding (getGroup sts sz c))"
  using search_inv_result[OF search_inv_init, of sts sz "getStone sts c" c]
  by (simp add: getGroup_def Let_def case_prod_beta del: search.simps)

lemma getGroup_liberties_def:
  "liberties (getGroup sts sz c) =
     length (filter (\<lambda>(k, v). v = EMPTY) (surrounding (getGroup sts sz c)))"
  by (simp add: getGroup_def Let_def split: prod.splits)

lemma getGroup_stones: "set (stones (getGroup sts sz c)) = component sts sz c"
  unfolding component_def by (rule search_inv_closed[OF getGroup_inv])

lemma getGroup_distinct: "distinct (stones (getGroup sts sz c))"
  using getGroup_inv[of sts sz c] unfolding search_inv_def by simp

lemma getGroup_size: "length (stones (getGroup sts sz c)) = card (component sts sz c)"
  using getGroup_distinct[of sts sz c] getGroup_stones[of sts sz c]
  by (metis distinct_card)

lemma getGroup_surrounding_distinct: "distinct (map fst (surrounding (getGroup sts sz c)))"
  using getGroup_inv[of sts sz c] unfolding search_inv_def by simp

lemma getGroup_surrounding:
  "map_of (surrounding (getGroup sts sz c)) n =
     (if n \<in> boundary sts sz c then Some (getStone sts n) else None)"
proof -
  have "map_of (surrounding (getGroup sts sz c)) n =
          (if getStone sts n \<noteq> getStone sts c
              \<and> (\<exists>v. v \<in> set (stones (getGroup sts sz c)) \<and> n \<in> set (getAdjacentIntersections sz v))
           then Some (getStone sts n) else None)"
    using getGroup_inv[of sts sz c] unfolding search_inv_def by blast
  then show ?thesis by (simp add: getGroup_stones boundary_def)
qed

lemma alist_count_keys:
  assumes "distinct (map fst xs)"
  shows "length (filter (\<lambda>(k, v). v = a) xs) = card {k. map_of xs k = Some a}"
proof -
  have d: "distinct (filter (\<lambda>(k, v). v = a) xs)"
    using assms by (simp add: distinct_map)
  have inj: "inj_on fst (set (filter (\<lambda>(k, v). v = a) xs))"
    using assms by (auto simp: distinct_map intro: inj_on_subset)
  have "{k. map_of xs k = Some a} = fst ` set (filter (\<lambda>(k, v). v = a) xs)"
    using assms by (force simp: image_iff)
  then have "card {k. map_of xs k = Some a} = card (set (filter (\<lambda>(k, v). v = a) xs))"
    using inj by (simp add: card_image)
  also have "\<dots> = length (filter (\<lambda>(k, v). v = a) xs)"
    using d by (rule distinct_card)
  finally show ?thesis by simp
qed

lemma getGroup_liberties:
  "liberties (getGroup sts sz c) = card {n. n \<in> boundary sts sz c \<and> getStone sts n = EMPTY}"
proof -
  have "{k. map_of (surrounding (getGroup sts sz c)) k = Some EMPTY}
          = {n. n \<in> boundary sts sz c \<and> getStone sts n = EMPTY}"
    by (auto simp: getGroup_surrounding split: if_splits)
  then show ?thesis
    by (simp add: getGroup_liberties_def alist_count_keys[OF getGroup_surrounding_distinct])
qed

lemma adjacent_cases:
  "n \<in> set (getAdjacentIntersections sz (Point c d)) \<longleftrightarrow>
     inBounds sz n \<and> (n = Point (c - 1) d \<or> n = Point c (d + 1) \<or> n = Point (c + 1) d
       \<or> n = Point c (d - 1))"
  unfolding getAdjacentIntersections_def deltas_def by (simp add: algebra_simps) blast

lemma unit_step:
  "(a = c - 1 \<and> b = d \<or> a = c \<and> b = d + 1 \<or> a = c + 1 \<and> b = d \<or> a = c \<and> b = d - 1)
     \<longleftrightarrow> \<bar>a - c\<bar> + \<bar>b - d\<bar> = (1::int)"
  by arith

lemma adjacent_iff:
  "n \<in> set (getAdjacentIntersections sz p) \<longleftrightarrow>
     inBounds sz n \<and> \<bar>pt_i n - pt_i p\<bar> + \<bar>pt_j n - pt_j p\<bar> = 1"
proof (cases n, cases p)
  fix a b c d
  assume eq: "n = Point a b" "p = Point c d"
  show ?thesis
    unfolding eq adjacent_cases using unit_step[of a c b d] by simp
qed

lemma adjacent_sym:
  "inBounds sz p \<Longrightarrow> n \<in> set (getAdjacentIntersections sz p) \<Longrightarrow>
   p \<in> set (getAdjacentIntersections sz n)"
  by (simp add: adjacent_iff) linarith

lemma adjacent_inBounds: "n \<in> set (getAdjacentIntersections sz p) \<Longrightarrow> inBounds sz n"
  by (simp add: adjacent_iff)

lemma component_refl: "c \<in> component sts sz c"
  by (simp add: component_def)

lemma component_color: "q \<in> component sts sz c \<Longrightarrow> getStone sts q = getStone sts c"
proof -
  assume "q \<in> component sts sz c"
  then have "(c, q) \<in> (same_adj sts sz (getStone sts c))\<^sup>*" by (simp add: component_def)
  then show ?thesis
    by (cases rule: rtranclE) (simp_all add: same_adj_def)
qed

lemma component_inBounds:
  assumes "inBounds sz c" and "q \<in> component sts sz c"
  shows "inBounds sz q"
proof -
  from assms(2) have "(c, q) \<in> (same_adj sts sz (getStone sts c))\<^sup>*" by (simp add: component_def)
  then show ?thesis
    using assms(1) by (cases rule: rtranclE) (auto simp: same_adj_def adjacent_inBounds)
qed

lemma component_step:
  "v \<in> component sts sz c \<Longrightarrow> n \<in> set (getAdjacentIntersections sz v) \<Longrightarrow>
   getStone sts n = getStone sts c \<Longrightarrow> n \<in> component sts sz c"
  unfolding component_def by (auto simp: same_adj_def intro: rtrancl_into_rtrancl)

lemma component_sym:
  assumes "inBounds sz c" and "q \<in> component sts sz c"
  shows "c \<in> component sts sz q"
proof -
  let ?R = "same_adj sts sz (getStone sts c)"
  from assms(2) have "(c, q) \<in> ?R\<^sup>*" by (simp add: component_def)
  then have "(q, c) \<in> ?R\<^sup>*"
  proof (induction rule: rtrancl_induct)
    case base
    show ?case by simp
  next
    case (step y z)
    from step(1) have "y \<in> component sts sz c" by (simp add: component_def)
    then have yb: "inBounds sz y" and yc: "getStone sts y = getStone sts c"
      using assms(1) by (auto dest: component_inBounds component_color)
    from step(2) have "z \<in> set (getAdjacentIntersections sz y)" by (simp add: same_adj_def)
    with yb have "y \<in> set (getAdjacentIntersections sz z)" by (rule adjacent_sym)
    with yc have "(z, y) \<in> ?R" by (simp add: same_adj_def)
    then show ?case using step(3) by (rule converse_rtrancl_into_rtrancl)
  qed
  then show ?thesis
    using component_color[OF assms(2)] by (simp add: component_def)
qed

lemma component_trans:
  assumes "q \<in> component sts sz c" and "r \<in> component sts sz q"
  shows "r \<in> component sts sz c"
  using assms component_color[OF assms(1)] unfolding component_def by auto

lemma component_eq:
  assumes "inBounds sz c" and "q \<in> component sts sz c"
  shows "component sts sz q = component sts sz c"
  using assms component_sym[OF assms] by (auto intro: component_trans)

lemma boundary_eq:
  assumes "inBounds sz c" and "q \<in> component sts sz c"
  shows "boundary sts sz q = boundary sts sz c"
  unfolding boundary_def by (simp add: component_eq[OF assms] component_color[OF assms(2)])

section \<open>Construction and the read accessor\<close>

text \<open>
  Claim C9. \<^verbatim>\<open>createBoard\<close> fails with InvalidSize exactly when the size is undefined
  or negative; every other size, zero included, gives a board. With size zero the board
  has no intersection at all.
\<close>

theorem createBoard_InvalidSize:
  "(createBoard sz sts = Inl InvalidSize) = (sz = None \<or> (\<exists>n. sz = Some n \<and> n < 0))
   \<and> (\<exists>b. createBoard sz sts = Inr b) = (\<exists>n. sz = Some n \<and> 0 \<le> n)
   \<and> createBoard (Some 0) sts = Inr \<lparr>b_size = 0, b_stones = (case sts of None \<Rightarrow> [] | Some s \<Rightarrow> s)\<rparr>
   \<and> allPositions 0 = []"
  by (auto simp: createBoard_def allPositions_def irange_def split: option.splits)

text \<open>
  Claim C10. \<^verbatim>\<open>Board.getStone\<close> is a plain lookup with the default EMPTY: its result
  does not depend on the size of the board, and a coordinate that is not a key of the
  stones map reads as EMPTY whether it lies on the board or not. The model has no error
  result because the source has no throwing path.
\<close>

theorem board_getStone_total:
  "board_getStone b (i, j) = (case map_of (b_stones b) (Point i j) of None \<Rightarrow> EMPTY | Some c \<Rightarrow> c)
   \<and> board_getStone (b\<lparr>b_size := n\<rparr>) (i, j) = board_getStone b (i, j)
   \<and> (map_of (b_stones b) (Point i j) = None \<longrightarrow> board_getStone b (i, j) = EMPTY)"
  by (simp add: board_getStone_def getStone_def)

theorem board_getStone_total_witness:
  "\<not> inBounds 3 (Point 7 (- 2))
   \<and> map_of [(Point 0 1, BLACK)] (Point 7 (- 2)) = None
   \<and> board_getStone \<lparr>b_size = 3, b_stones = [(Point 0 1, BLACK)]\<rparr> (7, - 2) = EMPTY
   \<and> board_getStone \<lparr>b_size = 3, b_stones = [(Point 0 1, BLACK)]\<rparr> (1, 1) = EMPTY"
  using board_getStone_total [of "\<lparr>b_size = 3, b_stones = [(Point 0 1, BLACK)]\<rparr>" 7 "- 2" 3]
    board_getStone_total [of "\<lparr>b_size = 3, b_stones = [(Point 0 1, BLACK)]\<rparr>" 1 1 3]
  by (simp add: inBounds_def)

section \<open>Rejected moves\<close>

text \<open>
  Claim C3. \<^verbatim>\<open>play\<close> throws "out of bounds" exactly when the coordinate is outside
  the board, throws "occupied" exactly when the coordinate is on the board and not EMPTY,
  throws nothing else, and returns a board exactly in the remaining case. An error and a
  board exclude each other in the result type; the board passed in is a value and is
  not changed by the call.
\<close>

theorem play_errors:
  "(play b col (i, j) = Inl OutOfBounds) = (\<not> (0 \<le> i \<and> i < b_size b \<and> 0 \<le> j \<and> j < b_size b))
   \<and> (play b col (i, j) = Inl IntersectionOccupied)
       = ((0 \<le> i \<and> i < b_size b \<and> 0 \<le> j \<and> j < b_size b) \<and> getStone (b_stones b) (Point i j) \<noteq> EMPTY)
   \<and> play b col (i, j) \<noteq> Inl InvalidSize
   \<and> (\<exists>b'. play b col (i, j) = Inr b')
       = ((0 \<le> i \<and> i < b_size b \<and> 0 \<le> j \<and> j < b_size b) \<and> getStone (b_stones b) (Point i j) = EMPTY)"
  by (auto simp: play_def Let_def inBounds_def createBoard_def)

section \<open>Group closure\<close>

lemma component_connected:
  assumes "q \<in> component sts sz c"
  shows "(c, q) \<in> (adj_within sz (component sts sz c))\<^sup>*"
proof -
  let ?R = "same_adj sts sz (getStone sts c)"
  from assms have "(c, q) \<in> ?R\<^sup>*" by (simp add: component_def)
  then show ?thesis
  proof (induction rule: rtrancl_induct)
    case base
    show ?case by simp
  next
    case (step y z)
    from step(1) have y: "y \<in> component sts sz c" by (simp add: component_def)
    from step(2) have adj: "z \<in> set (getAdjacentIntersections sz y)"
      and col: "getStone sts z = getStone sts c"
      by (simp_all add: same_adj_def)
    from y adj col have "z \<in> component sts sz c" by (rule component_step)
    with y adj have "(y, z) \<in> adj_within sz (component sts sz c)"
      by (simp add: adj_within_def)
    with step(3) show ?case by (rule rtrancl_into_rtrancl)
  qed
qed

lemma surrounding_empty_keys:
  "{n. map_of (surrounding (getGroup sts sz c)) n = Some EMPTY}
     = {n. n \<in> boundary sts sz c \<and> getStone sts n = EMPTY}"
  by (auto simp: getGroup_surrounding split: if_splits)

text \<open>
  Claim C8. For a seed on the board that holds a stone of colour C: every member of the
  group that \<^verbatim>\<open>getGroup\<close> returns holds C; the seed is a member and every member
  is reached from it by steps between adjacent members; no intersection of the board at
  distance one from a member and outside the group holds C; and the liberty count is the
  number of keys that \<^verbatim>\<open>surrounding\<close> binds to EMPTY, which are exactly the
  empty intersections adjacent to a member.
\<close>

theorem getGroup_closure:
  assumes "inBounds sz c" and "getStone sts c = C" and "C \<noteq> EMPTY"
  shows "(\<forall>q \<in> set (stones (getGroup sts sz c)). getStone sts q = C)
    \<and> c \<in> set (stones (getGroup sts sz c))
    \<and> (\<forall>q \<in> set (stones (getGroup sts sz c)).
          (c, q) \<in> (adj_within sz (set (stones (getGroup sts sz c))))\<^sup>*)
    \<and> (\<forall>m \<in> set (stones (getGroup sts sz c)). \<forall>q.
          inBounds sz q \<and> \<bar>pt_i q - pt_i m\<bar> + \<bar>pt_j q - pt_j m\<bar> = 1
          \<and> q \<notin> set (stones (getGroup sts sz c)) \<longrightarrow> getStone sts q \<noteq> C)
    \<and> liberties (getGroup sts sz c)
        = card {n. map_of (surrounding (getGroup sts sz c)) n = Some EMPTY}
    \<and> {n. map_of (surrounding (getGroup sts sz c)) n = Some EMPTY}
        = {n. getStone sts n = EMPTY
              \<and> (\<exists>m. m \<in> set (stones (getGroup sts sz c))
                    \<and> n \<in> set (getAdjacentIntersections sz m))}"
proof (intro conjI ballI allI impI)
  fix q assume "q \<in> set (stones (getGroup sts sz c))"
  then show "getStone sts q = C"
    using assms(2) by (simp add: getGroup_stones component_color)
next
  show "c \<in> set (stones (getGroup sts sz c))"
    by (simp add: getGroup_stones component_refl)
next
  fix q assume "q \<in> set (stones (getGroup sts sz c))"
  then show "(c, q) \<in> (adj_within sz (set (stones (getGroup sts sz c))))\<^sup>*"
    by (simp add: getGroup_stones component_connected)
next
  fix m q
  assume m: "m \<in> set (stones (getGroup sts sz c))"
    and q: "inBounds sz q \<and> \<bar>pt_i q - pt_i m\<bar> + \<bar>pt_j q - pt_j m\<bar> = 1
            \<and> q \<notin> set (stones (getGroup sts sz c))"
  from m have mc: "m \<in> component sts sz c" by (simp add: getGroup_stones)
  from q have adj: "q \<in> set (getAdjacentIntersections sz m)" by (simp add: adjacent_iff)
  show "getStone sts q \<noteq> C"
  proof
    assume "getStone sts q = C"
    with assms(2) have "getStone sts q = getStone sts c" by simp
    with mc adj have "q \<in> component sts sz c" by (rule component_step)
    with q show False by (simp add: getGroup_stones)
  qed
next
  show "liberties (getGroup sts sz c)
        = card {n. map_of (surrounding (getGroup sts sz c)) n = Some EMPTY}"
    by (simp add: getGroup_liberties_def alist_count_keys[OF getGroup_surrounding_distinct])
next
  show "{n. map_of (surrounding (getGroup sts sz c)) n = Some EMPTY}
        = {n. getStone sts n = EMPTY
              \<and> (\<exists>m. m \<in> set (stones (getGroup sts sz c))
                    \<and> n \<in> set (getAdjacentIntersections sz m))}"
    unfolding surrounding_empty_keys using assms(2,3)
    by (auto simp: boundary_def getGroup_stones)
qed

theorem getGroup_closure_witness:
  "inBounds 3 (Point 1 1) \<and> getStone ex_group (Point 1 1) = WHITE \<and> WHITE \<noteq> EMPTY
   \<and> Point 1 1 \<in> set (stones (getGroup ex_group 3 (Point 1 1)))
   \<and> stones (getGroup ex_group 3 (Point 1 1)) = [Point 1 1, Point 0 1, Point 1 0]
   \<and> getStone ex_group (Point 1 0) = WHITE
   \<and> getStone ex_group (Point 0 0) = EMPTY
   \<and> card {n. map_of (surrounding (getGroup ex_group 3 (Point 1 1))) n = Some EMPTY} = 1"
proof -
  have h1: "inBounds 3 (Point 1 1)" by (simp add: inBounds_def)
  have h2: "getStone ex_group (Point 1 1) = WHITE" by (simp add: ex_group_def getStone_def)
  have h3: "WHITE \<noteq> EMPTY" by simp
  have e1: "stones (getGroup ex_group 3 (Point 1 1)) = [Point 1 1, Point 0 1, Point 1 0]"
    by code_simp
  have e2: "liberties (getGroup ex_group 3 (Point 1 1)) = 1" by code_simp
  have e3: "getStone ex_group (Point 0 0) = EMPTY" by (simp add: ex_group_def getStone_def)
  from getGroup_closure[OF h1 h2 h3] h1 h2 e1 e2 e3 show ?thesis by simp
qed

section \<open>Captures\<close>

lemma update_fresh: "k \<notin> fst ` set al \<Longrightarrow> AList.update k v al = al @ [(k, v)]"
  by (induction al) auto

lemma fold_update_fresh:
  "distinct ns \<Longrightarrow> set ns \<inter> fst ` set m = {} \<Longrightarrow>
   fold (\<lambda>n acc. AList.update n (f n) acc) ns m = m @ map (\<lambda>n. (n, f n)) ns"
proof (induction ns arbitrary: m)
  case Nil
  show ?case by simp
next
  case (Cons n ns)
  from Cons.prems have fresh: "n \<notin> fst ` set m" by auto
  have "set ns \<inter> fst ` set (m @ [(n, f n)]) = {}"
    using Cons.prems by auto
  with Cons.IH[of "m @ [(n, f n)]"] Cons.prems show ?case
    by (simp add: update_fresh[OF fresh])
qed

lemma distinct_adjacent: "distinct (getAdjacentIntersections sz p)"
proof -
  have "distinct (map (\<lambda>vec. Point (pt_i vec + pt_i p) (pt_j vec + pt_j p)) deltas)"
    by (simp add: deltas_def)
  then show ?thesis
    unfolding getAdjacentIntersections_def by (rule distinct_filter)
qed

lemma neighborColors_eq:
  "neighborColors nb (getAdjacentIntersections sz p)
     = map (\<lambda>n. (n, getStone nb n)) (getAdjacentIntersections sz p)"
  unfolding neighborColors_def
  using fold_update_fresh[OF distinct_adjacent, of sz p "[]" "getStone nb"] by simp

lemma captured_eq:
  "captured nb sz col p =
     filter isDead (map (getGroup nb sz)
       (filter (\<lambda>n. opponentColor col (getStone nb n)) (getAdjacentIntersections sz p)))"
  unfolding captured_def neighborColors_eq
  by (simp add: filter_map comp_def case_prod_beta)

lemma removed_captured:
  "removed_stones (captured nb sz col p)
     = {q. \<exists>n. dead_opponent nb sz col p n \<and> q \<in> set (stones (getGroup nb sz n))}"
  unfolding removed_stones_def captured_eq dead_opponent_def
  by (auto simp: isDead_def opponentColor_def)

lemma captured_empty_iff:
  "captured nb sz col p = [] \<longleftrightarrow> (\<forall>n. \<not> dead_opponent nb sz col p n)"
  unfolding captured_eq dead_opponent_def
  by (auto simp: isDead_def opponentColor_def filter_empty_conv)

lemma map_of_fold_replace:
  "map_of (fold (\<lambda>stone acc. replaceStone acc stone EMPTY) xs nb) q
     = (if q \<in> set xs then Some EMPTY else map_of nb q)"
  by (induction xs arbitrary: nb) (simp_all add: map_of_replaceStone)

lemma map_of_removeCaptured:
  "map_of (removeCaptured capt nb) q
     = (if q \<in> removed_stones capt then Some EMPTY else map_of nb q)"
  unfolding removeCaptured_def removed_stones_def by (rule map_of_fold_replace)

lemma getStone_removeCaptured:
  "getStone (removeCaptured capt nb) q
     = (if q \<in> removed_stones capt then EMPTY else getStone nb q)"
  by (simp add: getStone_def map_of_removeCaptured)

lemma play_success:
  assumes "inBounds (b_size b) (Point i j)" and "getStone (b_stones b) (Point i j) = EMPTY"
  shows "play b col (i, j) =
     Inr \<lparr>b_size = b_size b,
          b_stones = removeCaptured
            (captured_final (replaceStone (b_stones b) (Point i j) col) (b_size b) col (Point i j))
            (replaceStone (b_stones b) (Point i j) col)\<rparr>"
proof -
  from assms(1) have "\<not> b_size b < 0" by (simp add: inBounds_def)
  with assms show ?thesis by (simp add: play_def Let_def createBoard_def)
qed

lemma group_other_color:
  assumes "q \<in> set (stones (getGroup nb sz n))" and "getStone nb n \<noteq> getStone nb p"
  shows "q \<noteq> p"
  using assms by (auto simp: getGroup_stones dest: component_color)

text \<open>
  Claim C1. When BLACK or WHITE is played on an empty intersection of the board and some
  neighbouring opponent group has no liberty on the tentative board, \<^verbatim>\<open>play\<close>
  returns a board where the played point holds the new stone and every other
  intersection is EMPTY if it belongs to one of those dead neighbouring groups and holds
  what it held before otherwise.
\<close>

theorem play_captures:
  assumes "col = BLACK \<or> col = WHITE"
    and "inBounds (b_size b) (Point i j)"
    and "getStone (b_stones b) (Point i j) = EMPTY"
    and "\<exists>n. dead_opponent (replaceStone (b_stones b) (Point i j) col) (b_size b) col (Point i j) n"
  shows "\<exists>b'. play b col (i, j) = Inr b' \<and> b_size b' = b_size b
    \<and> getStone (b_stones b') (Point i j) = col
    \<and> (\<forall>q. q \<noteq> Point i j \<longrightarrow>
          getStone (b_stones b') q =
            (if \<exists>n. dead_opponent (replaceStone (b_stones b) (Point i j) col) (b_size b) col
                      (Point i j) n
                    \<and> q \<in> set (stones (getGroup (replaceStone (b_stones b) (Point i j) col)
                          (b_size b) n))
             then EMPTY else getStone (b_stones b) q))"
proof -
  let ?nb = "replaceStone (b_stones b) (Point i j) col"
  let ?capt = "captured ?nb (b_size b) col (Point i j)"
  let ?new = "removeCaptured ?capt ?nb"
  from assms(4) have "?capt \<noteq> []" by (simp add: captured_empty_iff)
  then have cf: "captured_final ?nb (b_size b) col (Point i j) = ?capt"
    by (simp add: captured_final_def Let_def)
  have res: "play b col (i, j) = Inr \<lparr>b_size = b_size b, b_stones = ?new\<rparr>"
    using play_success[OF assms(2,3), of col] by (simp add: cf)
  have notp: "Point i j \<notin> removed_stones ?capt"
  proof
    assume "Point i j \<in> removed_stones ?capt"
    then obtain n where n: "dead_opponent ?nb (b_size b) col (Point i j) n"
      and mem: "Point i j \<in> set (stones (getGroup ?nb (b_size b) n))"
      by (auto simp: removed_captured)
    from n have "getStone ?nb n \<noteq> getStone ?nb (Point i j)"
      by (simp add: dead_opponent_def getStone_replaceStone)
    with mem show False by (auto dest: group_other_color)
  qed
  have at_p: "getStone ?new (Point i j) = col"
    using notp by (simp add: getStone_removeCaptured getStone_replaceStone)
  have others: "getStone ?new q =
      (if \<exists>n. dead_opponent ?nb (b_size b) col (Point i j) n
              \<and> q \<in> set (stones (getGroup ?nb (b_size b) n))
       then EMPTY else getStone (b_stones b) q)" if "q \<noteq> Point i j" for q
    using that by (auto simp: getStone_removeCaptured removed_captured getStone_replaceStone)
  show ?thesis
    unfolding res using at_p others by simp
qed

theorem play_captures_witness:
  "inBounds (b_size capture_board) (Point 0 0)
   \<and> getStone (b_stones capture_board) (Point 0 0) = EMPTY
   \<and> dead_opponent (replaceStone (b_stones capture_board) (Point 0 0) BLACK) 3 BLACK (Point 0 0)
       (Point 0 1)
   \<and> (\<exists>b'. play capture_board BLACK (0, 0) = Inr b'
         \<and> getStone (b_stones b') (Point 0 0) = BLACK
         \<and> getStone (b_stones b') (Point 1 1) = EMPTY
         \<and> getStone (b_stones b') (Point 2 2) = WHITE
         \<and> getStone (b_stones b') (Point 2 1) = BLACK)"
proof -
  let ?nb = "replaceStone (b_stones capture_board) (Point 0 0) BLACK"
  have h1: "inBounds (b_size capture_board) (Point 0 0)" by code_simp
  have h2: "getStone (b_stones capture_board) (Point 0 0) = EMPTY" by code_simp
  have sz: "b_size capture_board = 3" by (simp add: capture_board_def)
  have d1: "dead_opponent ?nb 3 BLACK (Point 0 0) (Point 0 1)" by code_simp
  have d2: "dead_opponent ?nb 3 BLACK (Point 0 0) n \<longleftrightarrow> n = Point 0 1 \<or> n = Point 1 0" for n
  proof -
    have "set (getAdjacentIntersections 3 (Point 0 0)) = {Point 0 1, Point 1 0}" by code_simp
    moreover have "dead_opponent ?nb 3 BLACK (Point 0 0) (Point 1 0)" by code_simp
    ultimately show ?thesis using d1 by (auto simp: dead_opponent_def)
  qed
  have g1: "set (stones (getGroup ?nb 3 (Point 0 1))) = {Point 0 1, Point 1 1, Point 1 0}"
    by code_simp
  have g2: "set (stones (getGroup ?nb 3 (Point 1 0))) = {Point 0 1, Point 1 1, Point 1 0}"
    by code_simp
  have h4: "\<exists>n. dead_opponent (replaceStone (b_stones capture_board) (Point 0 0) BLACK)
      (b_size capture_board) BLACK (Point 0 0) n"
    unfolding sz using d1 by blast
  have v1: "getStone (b_stones capture_board) (Point 2 2) = WHITE" by code_simp
  have v2: "getStone (b_stones capture_board) (Point 2 1) = BLACK" by code_simp
  from play_captures[OF _ h1 h2 h4, of] obtain b' where
    r: "play capture_board BLACK (0, 0) = Inr b'"
    and p: "getStone (b_stones b') (Point 0 0) = BLACK"
    and o: "\<And>q. q \<noteq> Point 0 0 \<Longrightarrow> getStone (b_stones b') q =
        (if \<exists>n. dead_opponent ?nb 3 BLACK (Point 0 0) n \<and> q \<in> set (stones (getGroup ?nb 3 n))
         then EMPTY else getStone (b_stones capture_board) q)"
    unfolding sz by auto
  have "getStone (b_stones b') (Point 1 1) = EMPTY"
    using o[of "Point 1 1"] d1 g1 by auto
  moreover have "getStone (b_stones b') (Point 2 2) = WHITE"
    using o[of "Point 2 2"] g1 g2 v1 by (auto simp: d2)
  moreover have "getStone (b_stones b') (Point 2 1) = BLACK"
    using o[of "Point 2 1"] g1 g2 v2 by (auto simp: d2)
  ultimately show ?thesis using h1 h2 d1 r p by blast
qed

section \<open>Suicide\<close>

text \<open>
  Claim C2. When a stone is played on an empty intersection of the board, no neighbouring
  opponent group is dead on the tentative board and the group of the new stone has no
  liberty there, \<^verbatim>\<open>play\<close> returns a board (the move is not rejected) in which the
  members of that group, the played point among them, are EMPTY and every other
  intersection holds what it held before. The witness is the spec's example: white plays
  (1,1) inside the black cross on the 3 by 3 board.
\<close>

theorem play_suicide:
  assumes "inBounds (b_size b) (Point i j)"
    and "getStone (b_stones b) (Point i j) = EMPTY"
    and "\<forall>n. \<not> dead_opponent (replaceStone (b_stones b) (Point i j) col) (b_size b) col (Point i j) n"
    and "liberties (getGroup (replaceStone (b_stones b) (Point i j) col) (b_size b) (Point i j)) = 0"
  shows "\<exists>b'. play b col (i, j) = Inr b' \<and> b_size b' = b_size b
    \<and> Point i j \<in> set (stones (getGroup (replaceStone (b_stones b) (Point i j) col) (b_size b)
          (Point i j)))
    \<and> (\<forall>q. getStone (b_stones b') q =
          (if q \<in> set (stones (getGroup (replaceStone (b_stones b) (Point i j) col) (b_size b)
                (Point i j)))
           then EMPTY else getStone (b_stones b) q))"
proof -
  let ?nb = "replaceStone (b_stones b) (Point i j) col"
  let ?g = "getGroup ?nb (b_size b) (Point i j)"
  from assms(3) have "captured ?nb (b_size b) col (Point i j) = []"
    by (simp add: captured_empty_iff)
  with assms(4) have cf: "captured_final ?nb (b_size b) col (Point i j) = [?g]"
    by (simp add: captured_final_def Let_def isDead_def)
  have res: "play b col (i, j) = Inr \<lparr>b_size = b_size b, b_stones = removeCaptured [?g] ?nb\<rparr>"
    using play_success[OF assms(1,2), of col] by (simp add: cf)
  have mem: "Point i j \<in> set (stones ?g)"
    by (simp add: getGroup_stones component_refl)
  have "getStone (removeCaptured [?g] ?nb) q =
      (if q \<in> set (stones ?g) then EMPTY else getStone (b_stones b) q)" for q
    using mem by (auto simp: getStone_removeCaptured removed_stones_def getStone_replaceStone)
  with mem show ?thesis
    unfolding res by simp
qed

theorem play_suicide_witness:
  "cross_board = Inr \<lparr>b_size = 3, b_stones = [(Point 0 1, BLACK), (Point 1 0, BLACK),
       (Point 1 2, BLACK), (Point 2 1, BLACK)]\<rparr>
   \<and> (\<exists>b'. play \<lparr>b_size = 3, b_stones = [(Point 0 1, BLACK), (Point 1 0, BLACK),
                 (Point 1 2, BLACK), (Point 2 1, BLACK)]\<rparr> WHITE (1, 1) = Inr b'
         \<and> getStone (b_stones b') (Point 1 1) = EMPTY
         \<and> getStone (b_stones b') (Point 0 1) = BLACK
         \<and> getStone (b_stones b') (Point 1 0) = BLACK
         \<and> getStone (b_stones b') (Point 1 2) = BLACK
         \<and> getStone (b_stones b') (Point 2 1) = BLACK)"
proof -
  let ?sts = "[(Point 0 1, BLACK), (Point 1 0, BLACK), (Point 1 2, BLACK), (Point 2 1, BLACK)]"
  let ?b = "\<lparr>b_size = 3, b_stones = ?sts\<rparr>"
  let ?nb = "replaceStone ?sts (Point 1 1) WHITE"
  have c: "cross_board = Inr ?b" by code_simp
  have h1: "inBounds (b_size ?b) (Point 1 1)" by code_simp
  have h2: "getStone (b_stones ?b) (Point 1 1) = EMPTY" by code_simp
  have "captured ?nb 3 WHITE (Point 1 1) = []" by code_simp
  then have h3: "\<forall>n. \<not> dead_opponent (replaceStone (b_stones ?b) (Point 1 1) WHITE) (b_size ?b)
      WHITE (Point 1 1) n"
    by (simp add: captured_empty_iff)
  have h4: "liberties (getGroup (replaceStone (b_stones ?b) (Point 1 1) WHITE) (b_size ?b)
      (Point 1 1)) = 0"
    by code_simp
  have g: "stones (getGroup ?nb 3 (Point 1 1)) = [Point 1 1]" by code_simp
  have v: "getStone ?sts (Point 0 1) = BLACK" "getStone ?sts (Point 1 0) = BLACK"
    "getStone ?sts (Point 1 2) = BLACK" "getStone ?sts (Point 2 1) = BLACK"
    by (simp_all add: getStone_def)
  from play_suicide[OF h1 h2 h3 h4] obtain b' where
    r: "play ?b WHITE (1, 1) = Inr b'"
    and o: "\<And>q. getStone (b_stones b') q =
        (if q \<in> set (stones (getGroup ?nb 3 (Point 1 1))) then EMPTY else getStone ?sts q)"
    by auto
  have "getStone (b_stones b') (Point 1 1) = EMPTY
    \<and> getStone (b_stones b') (Point 0 1) = BLACK
    \<and> getStone (b_stones b') (Point 1 0) = BLACK
    \<and> getStone (b_stones b') (Point 1 2) = BLACK
    \<and> getStone (b_stones b') (Point 2 1) = BLACK"
    unfolding o g using v by simp
  with c r show ?thesis by blast
qed

section \<open>The entries of the stones map\<close>

lemma removed_stones_Cons:
  "removed_stones (g # gs) = set (stones g) \<union> removed_stones gs"
  by (simp add: removed_stones_def)

lemma removed_stones_dedupGroups: "removed_stones (dedupGroups gs) = removed_stones gs"
proof (induction gs)
  case Nil
  show ?case by simp
next
  case (Cons g gs)
  show ?case
  proof (cases "set (stones g) \<in> (set \<circ> stones) ` set gs")
    case True
    then have "set (stones g) \<subseteq> removed_stones gs"
      by (auto simp: removed_stones_def)
    with True Cons.IH show ?thesis
      by (auto simp: removed_stones_Cons)
  next
    case False
    with Cons.IH show ?thesis by (simp add: removed_stones_Cons)
  qed
qed

lemma group_on_board:
  "inBounds sz c \<Longrightarrow> q \<in> set (stones (getGroup sts sz c)) \<Longrightarrow> inBounds sz q"
  by (simp add: getGroup_stones component_inBounds)

lemma removed_captured_on_board:
  "q \<in> removed_stones (captured nb sz col p) \<Longrightarrow> inBounds sz q"
  by (auto simp: removed_captured dead_opponent_def dest: adjacent_inBounds group_on_board)

lemma removed_final_on_board:
  assumes "inBounds sz p" and "q \<in> removed_stones (captured_final nb sz col p)"
  shows "inBounds sz q"
proof (cases "captured nb sz col p = [] \<and> isDead (getGroup nb sz p)")
  case True
  with assms(2) have "q \<in> set (stones (getGroup nb sz p))"
    by (simp add: captured_final_def Let_def removed_stones_def)
  with assms(1) show ?thesis by (rule group_on_board)
next
  case False
  with assms(2) have "q \<in> removed_stones (captured nb sz col p)"
    by (auto simp: captured_final_def Let_def)
  then show ?thesis by (rule removed_captured_on_board)
qed

lemma play_map_of:
  assumes "play b col (i, j) = Inr b'"
  shows "b_size b' = b_size b \<and> inBounds (b_size b) (Point i j)
    \<and> map_of (b_stones b') k =
      (if k \<in> removed_stones (captured_final (replaceStone (b_stones b) (Point i j) col)
                (b_size b) col (Point i j))
       then Some EMPTY
       else if k = Point i j then Some col else map_of (b_stones b) k)"
proof -
  from assms have ib: "inBounds (b_size b) (Point i j)"
    and e: "getStone (b_stones b) (Point i j) = EMPTY"
    by (auto simp: play_def Let_def split: if_splits)
  from assms show ?thesis
    unfolding play_success[OF ib e]
    by (auto simp: ib map_of_removeCaptured map_of_replaceStone)
qed

lemma play_keys_on_board:
  assumes "keys_on_board b" and "play b col (i, j) = Inr b'"
  shows "keys_on_board b'"
  unfolding keys_on_board_def
proof (intro allI impI)
  fix k v
  assume kv: "map_of (b_stones b') k = Some v"
  note pm = play_map_of[OF assms(2), of k]
  show "inBounds (b_size b') k"
  proof (cases "k \<in> removed_stones (captured_final (replaceStone (b_stones b) (Point i j) col)
                (b_size b) col (Point i j))")
    case True
    with pm show ?thesis by (auto intro: removed_final_on_board)
  next
    case False
    show ?thesis
    proof (cases "k = Point i j")
      case True
      with pm show ?thesis by simp
    next
      case neq: False
      with pm kv False have "map_of (b_stones b) k = Some v" by simp
      with assms(1) have "inBounds (b_size b) k" unfolding keys_on_board_def by blast
      with pm show ?thesis by simp
    qed
  qed
qed

lemma playAll_Inl: "playAll (Inl e) ms = Inl e"
  by (induction ms) auto

lemma playAll_keys_on_board:
  "keys_on_board b0 \<Longrightarrow> playAll (Inr b0) ms = Inr b \<Longrightarrow> keys_on_board b"
proof (induction ms arbitrary: b0)
  case Nil
  then show ?case by simp
next
  case (Cons m ms)
  obtain col c1 c2 where m: "m = (col, c1, c2)" by (cases m) auto
  show ?case
  proof (cases "play b0 col (c1, c2)")
    case (Inl e)
    with Cons.prems(2) m show ?thesis by (simp add: playAll_Inl)
  next
    case (Inr b1)
    with Cons.prems(1) have "keys_on_board b1" by (auto intro: play_keys_on_board)
    moreover from Cons.prems(2) m Inr have "playAll (Inr b1) ms = Inr b" by simp
    ultimately show ?thesis by (rule Cons.IH)
  qed
qed

lemma reachable_keys_on_board:
  assumes "playAll (createBoard (Some n) None) ms = Inr b"
  shows "keys_on_board b"
proof (cases "n < 0")
  case True
  with assms show ?thesis by (simp add: createBoard_def playAll_Inl)
next
  case False
  then have "createBoard (Some n) None = Inr \<lparr>b_size = n, b_stones = []\<rparr>"
    by (simp add: createBoard_def)
  moreover have "keys_on_board \<lparr>b_size = n, b_stones = []\<rparr>"
    by (simp add: keys_on_board_def)
  ultimately show ?thesis using assms by (auto intro: playAll_keys_on_board)
qed

text \<open>
  Claim C4, as the claim states it, fails: after the suicide of the spec's own example the
  key (1,1) is bound to an explicit EMPTY entry.
\<close>

theorem stones_explicit_EMPTY:
  "playAll (createBoard (Some 3) None)
     [(BLACK, (0, 1)), (BLACK, (1, 0)), (BLACK, (1, 2)), (BLACK, (2, 1)), (WHITE, (1, 1))]
   = Inr \<lparr>b_size = 3, b_stones = [(Point 0 1, BLACK), (Point 1 0, BLACK), (Point 1 2, BLACK),
       (Point 2 1, BLACK), (Point 1 1, EMPTY)]\<rparr>
   \<and> map_of [(Point 0 1, BLACK), (Point 1 0, BLACK), (Point 1 2, BLACK),
       (Point 2 1, BLACK), (Point 1 1, EMPTY)] (Point 1 1) = Some EMPTY"
  by code_simp

text \<open>
  Claim C4, amended. On a board reached from \<^verbatim>\<open>createBoard\<close> (no initial stones) by
  successful plays, a further successful play of BLACK or WHITE never deletes a key: it
  binds every stone it removes to an explicit EMPTY entry, binds the played point to the
  played colour unless that point is removed, and leaves every other binding as it was.
  So a key is bound to EMPTY exactly when its stone was just removed or it was bound to
  EMPTY before and is not the played point, and every key is an intersection of the board.
\<close>

theorem play_entries:
  assumes "playAll (createBoard (Some n) None) ms = Inr b"
    and "col = BLACK \<or> col = WHITE"
    and "play b col (i, j) = Inr b'"
  shows "(\<forall>k. map_of (b_stones b') k =
        (if k \<in> removed_stones (captured_final (replaceStone (b_stones b) (Point i j) col)
                  (b_size b) col (Point i j))
         then Some EMPTY
         else if k = Point i j then Some col else map_of (b_stones b) k))
    \<and> (\<forall>k. map_of (b_stones b') k = Some EMPTY \<longleftrightarrow>
          k \<in> removed_stones (captured_final (replaceStone (b_stones b) (Point i j) col)
                  (b_size b) col (Point i j))
          \<or> (k \<noteq> Point i j \<and> map_of (b_stones b) k = Some EMPTY))
    \<and> (\<forall>k v. map_of (b_stones b') k = Some v \<longrightarrow> inBounds (b_size b') k)"
proof -
  have 1: "map_of (b_stones b') k =
        (if k \<in> removed_stones (captured_final (replaceStone (b_stones b) (Point i j) col)
                  (b_size b) col (Point i j))
         then Some EMPTY
         else if k = Point i j then Some col else map_of (b_stones b) k)" for k
    using play_map_of[OF assms(3), of k] by simp
  have 2: "map_of (b_stones b') k = Some EMPTY \<longleftrightarrow>
          k \<in> removed_stones (captured_final (replaceStone (b_stones b) (Point i j) col)
                  (b_size b) col (Point i j))
          \<or> (k \<noteq> Point i j \<and> map_of (b_stones b) k = Some EMPTY)" for k
    unfolding 1 using assms(2) by auto
  have "keys_on_board b'"
    using reachable_keys_on_board[OF assms(1)] assms(3) by (rule play_keys_on_board)
  then have 3: "\<forall>k v. map_of (b_stones b') k = Some v \<longrightarrow> inBounds (b_size b') k"
    by (simp add: keys_on_board_def)
  from 1 2 3 show ?thesis by blast
qed

theorem play_entries_witness:
  "cross_board = Inr \<lparr>b_size = 3, b_stones = [(Point 0 1, BLACK), (Point 1 0, BLACK),
       (Point 1 2, BLACK), (Point 2 1, BLACK)]\<rparr>
   \<and> (\<exists>b'. play \<lparr>b_size = 3, b_stones = [(Point 0 1, BLACK), (Point 1 0, BLACK),
                 (Point 1 2, BLACK), (Point 2 1, BLACK)]\<rparr> WHITE (1, 1) = Inr b'
         \<and> map_of (b_stones b') (Point 1 1) = Some EMPTY
         \<and> map_of (b_stones b') (Point 0 1) = Some BLACK
         \<and> map_of (b_stones b') (Point 0 0) = None)"
proof -
  let ?sts = "[(Point 0 1, BLACK), (Point 1 0, BLACK), (Point 1 2, BLACK), (Point 2 1, BLACK)]"
  let ?b = "\<lparr>b_size = 3, b_stones = ?sts\<rparr>"
  have c: "cross_board = Inr ?b" by code_simp
  then have h1: "playAll (createBoard (Some 3) None)
      [(BLACK, (0, 1)), (BLACK, (1, 0)), (BLACK, (1, 2)), (BLACK, (2, 1))] = Inr ?b"
    by (simp add: cross_board_def)
  have h2: "WHITE = BLACK \<or> WHITE = WHITE" by simp
  obtain b' where h3: "play ?b WHITE (1, 1) = Inr b'"
    using play_success[of ?b 1 1 WHITE] by (simp add: inBounds_def getStone_def)
  have r: "removed_stones (captured_final (replaceStone (b_stones ?b) (Point 1 1) WHITE)
      (b_size ?b) WHITE (Point 1 1)) = {Point 1 1}"
    by code_simp
  from play_entries[OF h1 h2 h3]
  have "map_of (b_stones b') k =
      (if k \<in> {Point 1 1} then Some EMPTY
       else if k = Point 1 1 then Some WHITE else map_of (b_stones ?b) k)" for k
    unfolding r by blast
  then have "map_of (b_stones b') (Point 1 1) = Some EMPTY
    \<and> map_of (b_stones b') (Point 0 1) = Some BLACK
    \<and> map_of (b_stones b') (Point 0 0) = None"
    by simp
  with c h3 show ?thesis by blast
qed

section \<open>Groups reached from several neighbours\<close>

lemma length_filter_card:
  "distinct xs \<Longrightarrow> length (filter P xs) = card {x. x \<in> set xs \<and> P x}"
proof -
  assume "distinct xs"
  then have "distinct (filter P xs)" by simp
  then have "card (set (filter P xs)) = length (filter P xs)" by (rule distinct_card)
  then show ?thesis by simp
qed

lemma captured_length:
  "length (captured nb sz col p) = card {n. dead_opponent nb sz col p n}"
proof -
  have "length (captured nb sz col p) =
      length (filter (\<lambda>n. opponentColor col (getStone nb n) \<and> isDead (getGroup nb sz n))
        (getAdjacentIntersections sz p))"
    unfolding captured_eq by (simp add: filter_map comp_def conj_commute)
  also have "\<dots> = card {n. n \<in> set (getAdjacentIntersections sz p)
      \<and> opponentColor col (getStone nb n) \<and> isDead (getGroup nb sz n)}"
    by (rule length_filter_card[OF distinct_adjacent])
  also have "{n. n \<in> set (getAdjacentIntersections sz p)
      \<and> opponentColor col (getStone nb n) \<and> isDead (getGroup nb sz n)}
      = {n. dead_opponent nb sz col p n}"
    by (auto simp: dead_opponent_def opponentColor_def isDead_def)
  finally show ?thesis .
qed

text \<open>
  Claim C5, as the claim states it, fails: black plays (0,0) and the dead white group,
  which touches (0,0) through (0,1) and through (1,0), is in the capture list twice.
\<close>

theorem captured_lists_group_twice:
  "map (set \<circ> stones)
     (captured (replaceStone (b_stones capture_board) (Point 0 0) BLACK) 3 BLACK (Point 0 0))
   = [{Point 0 1, Point 1 1, Point 1 0}, {Point 0 1, Point 1 1, Point 1 0}]"
  by code_simp

text \<open>
  Claim C5, amended. The capture list is not deduplicated: it holds one entry for each
  opponent-coloured neighbour of the played point whose group is dead, so a dead group
  that touches the played point through several neighbours is listed once per such
  neighbour, each time with the same set of stones. Removal only sets stones to EMPTY,
  so the stones map that results is the one a deduplicated list would give.
\<close>

theorem captured_per_neighbour:
  "captured nb sz col p =
     filter isDead (map (getGroup nb sz)
       (filter (\<lambda>n. opponentColor col (getStone nb n)) (getAdjacentIntersections sz p)))
   \<and> length (captured nb sz col p) = card {n. dead_opponent nb sz col p n}
   \<and> (\<forall>n1 n2. dead_opponent nb sz col p n1 \<and> dead_opponent nb sz col p n2
         \<and> n2 \<in> set (stones (getGroup nb sz n1))
         \<longrightarrow> set (stones (getGroup nb sz n2)) = set (stones (getGroup nb sz n1)))
   \<and> (\<forall>q. map_of (removeCaptured (captured nb sz col p) nb) q
           = map_of (removeCaptured (dedupGroups (captured nb sz col p)) nb) q)"
proof (intro conjI allI impI)
  show "captured nb sz col p =
     filter isDead (map (getGroup nb sz)
       (filter (\<lambda>n. opponentColor col (getStone nb n)) (getAdjacentIntersections sz p)))"
    by (rule captured_eq)
next
  show "length (captured nb sz col p) = card {n. dead_opponent nb sz col p n}"
    by (rule captured_length)
next
  fix n1 n2
  assume a: "dead_opponent nb sz col p n1 \<and> dead_opponent nb sz col p n2
         \<and> n2 \<in> set (stones (getGroup nb sz n1))"
  then have "inBounds sz n1" by (auto simp: dead_opponent_def dest: adjacent_inBounds)
  moreover from a have "n2 \<in> component nb sz n1" by (simp add: getGroup_stones)
  ultimately have "component nb sz n2 = component nb sz n1" by (rule component_eq)
  then show "set (stones (getGroup nb sz n2)) = set (stones (getGroup nb sz n1))"
    by (simp add: getGroup_stones)
next
  fix q
  show "map_of (removeCaptured (captured nb sz col p) nb) q
           = map_of (removeCaptured (dedupGroups (captured nb sz col p)) nb) q"
    by (simp add: map_of_removeCaptured removed_stones_dedupGroups)
qed

theorem captured_per_neighbour_witness:
  "dead_opponent (replaceStone (b_stones capture_board) (Point 0 0) BLACK) 3 BLACK (Point 0 0)
     (Point 0 1)
   \<and> dead_opponent (replaceStone (b_stones capture_board) (Point 0 0) BLACK) 3 BLACK (Point 0 0)
     (Point 1 0)
   \<and> Point 1 0 \<in> set (stones (getGroup (replaceStone (b_stones capture_board) (Point 0 0) BLACK)
       3 (Point 0 1)))
   \<and> set (stones (getGroup (replaceStone (b_stones capture_board) (Point 0 0) BLACK) 3 (Point 1 0)))
     = set (stones (getGroup (replaceStone (b_stones capture_board) (Point 0 0) BLACK) 3 (Point 0 1)))
   \<and> length (captured (replaceStone (b_stones capture_board) (Point 0 0) BLACK) 3 BLACK
       (Point 0 0)) = 2
   \<and> length (dedupGroups (captured (replaceStone (b_stones capture_board) (Point 0 0) BLACK) 3
       BLACK (Point 0 0))) = 1"
proof -
  let ?nb = "replaceStone (b_stones capture_board) (Point 0 0) BLACK"
  have d1: "dead_opponent ?nb 3 BLACK (Point 0 0) (Point 0 1)" by code_simp
  have d2: "dead_opponent ?nb 3 BLACK (Point 0 0) (Point 1 0)" by code_simp
  have m: "Point 1 0 \<in> set (stones (getGroup ?nb 3 (Point 0 1)))" by code_simp
  have l: "length (captured ?nb 3 BLACK (Point 0 0)) = 2" by code_simp
  have l': "length (dedupGroups (captured ?nb 3 BLACK (Point 0 0))) = 1" by code_simp
  from captured_per_neighbour[of ?nb 3 BLACK "Point 0 0"] d1 d2 m
  have "set (stones (getGroup ?nb 3 (Point 1 0))) = set (stones (getGroup ?nb 3 (Point 0 1)))"
    by blast
  with d1 d2 m l l' show ?thesis by blast
qed

section \<open>Area scoring\<close>

lemma set_iset_union: "set (iset_union s t) = set s \<union> set t"
  unfolding iset_union_def by (induction t arbitrary: s) (auto simp: iset_add_def)

lemma distinct_iset_union: "distinct s \<Longrightarrow> distinct (iset_union s t)"
  unfolding iset_union_def by (induction t arbitrary: s) (auto simp: iset_add_def)

lemma set_irange: "0 \<le> sz \<Longrightarrow> set (irange sz) = {0..<sz}"
  by (auto simp: irange_def)

lemma set_allPositions: "0 \<le> sz \<Longrightarrow> set (allPositions sz) = grid sz"
  by (auto simp: allPositions_def set_irange grid_eq)

lemma card_grid: "0 \<le> sz \<Longrightarrow> int (card (grid sz)) = sz * sz"
proof -
  assume "0 \<le> sz"
  have "inj_on (\<lambda>(a, b). Point a b) ({0..<sz} \<times> {0..<sz})"
    by (auto simp: inj_on_def)
  then have "card (grid sz) = card ({0..<sz} \<times> {0..<sz})"
    unfolding grid_eq by (rule card_image)
  with \<open>0 \<le> sz\<close> show ?thesis by simp
qed

lemma surrounding_entries:
  "(n, c) \<in> set (surrounding (getGroup sts sz p)) \<longleftrightarrow> n \<in> boundary sts sz p \<and> c = getStone sts n"
proof -
  have "(n, c) \<in> set (surrounding (getGroup sts sz p))
          \<longleftrightarrow> map_of (surrounding (getGroup sts sz p)) n = Some c"
    using map_of_eq_Some_iff[OF getGroup_surrounding_distinct, of sts sz p n c] by simp
  also have "\<dots> \<longleftrightarrow> n \<in> boundary sts sz p \<and> c = getStone sts n"
    by (auto simp: getGroup_surrounding)
  finally show ?thesis .
qed

lemma borderColors_boundary: "borderColors sts sz p = getStone sts ` boundary sts sz p"
proof -
  have "c \<in> borderColors sts sz p \<longleftrightarrow> c \<in> getStone sts ` boundary sts sz p" for c
  proof -
    have "c \<in> borderColors sts sz p
            \<longleftrightarrow> (\<exists>n. (n, c) \<in> set (surrounding (getGroup sts sz p)))"
      unfolding borderColors_def by force
    also have "\<dots> \<longleftrightarrow> c \<in> getStone sts ` boundary sts sz p"
      unfolding surrounding_entries by blast
    finally show ?thesis .
  qed
  then show ?thesis by blast
qed

lemma borderColors_other: "c \<in> borderColors sts sz p \<Longrightarrow> c \<noteq> getStone sts p"
  by (auto simp: borderColors_boundary boundary_def)

lemma borderColors_eq:
  "inBounds sz c \<Longrightarrow> q \<in> component sts sz c \<Longrightarrow> borderColors sts sz q = borderColors sts sz c"
  by (simp add: borderColors_boundary boundary_eq)

lemma counts_for_eq:
  assumes "inBounds sz c" and "q \<in> component sts sz c"
  shows "counts_for sts sz col q = counts_for sts sz col c"
  unfolding counts_for_def
  by (simp add: borderColors_eq[OF assms] component_color[OF assms(2)])

lemma remdups_single:
  "length (remdups xs) = 1 \<Longrightarrow> set xs = {hd (remdups xs)}"
proof -
  assume "length (remdups xs) = 1"
  then obtain x where "remdups xs = [x]"
    by (cases "remdups xs") auto
  then show ?thesis
    by (metis empty_set list.sel(1) list.simps(15) set_remdups)
qed

lemma single_remdups: "set xs = {c} \<Longrightarrow> length (remdups xs) = 1"
proof -
  assume "set xs = {c}"
  then have "card (set xs) = 1" by simp
  then show ?thesis by (simp add: length_remdups_card_conv)
qed

lemma areaStep_fresh:
  assumes "coords \<notin> set visited"
  shows "areaStep sts sz coords (visited, score) =
    (iset_union visited (stones (getGroup sts sz coords)),
     \<lambda>col. score col + (if counts_for sts sz col coords
                         then length (stones (getGroup sts sz coords)) else 0))"
proof -
  let ?g = "getGroup sts sz coords"
  let ?sc = "remdups (map snd (surrounding ?g))"
  have score: "(if getStone sts coords = EMPTY then
                  (if length ?sc = 1 then score (hd ?sc := score (hd ?sc) + length (stones ?g))
                   else score)
                else score (getStone sts coords := score (getStone sts coords) + length (stones ?g)))
     = (\<lambda>col. score col + (if counts_for sts sz col coords then length (stones ?g) else 0))"
  proof (rule ext)
    fix col
    show "(if getStone sts coords = EMPTY then
                  (if length ?sc = 1 then score (hd ?sc := score (hd ?sc) + length (stones ?g))
                   else score)
                else score (getStone sts coords := score (getStone sts coords) + length (stones ?g))) col
     = score col + (if counts_for sts sz col coords then length (stones ?g) else 0)"
    proof (cases "getStone sts coords = EMPTY")
      case False
      then show ?thesis by (auto simp: counts_for_def)
    next
      case True
      show ?thesis
      proof (cases "length ?sc = 1")
        case one: True
        then have "borderColors sts sz coords = {hd ?sc}"
          unfolding borderColors_def by (rule remdups_single)
        with True one show ?thesis by (auto simp: counts_for_def)
      next
        case more: False
        have "borderColors sts sz coords \<noteq> {col}"
        proof
          assume "borderColors sts sz coords = {col}"
          then have "length ?sc = 1"
            unfolding borderColors_def by (rule single_remdups)
          with more show False by simp
        qed
        with True more show ?thesis by (auto simp: counts_for_def)
      qed
    qed
  qed
  have "areaStep sts sz coords (visited, score) =
    (iset_union visited (stones ?g),
     (if getStone sts coords = EMPTY then
        (if length ?sc = 1 then score (hd ?sc := score (hd ?sc) + length (stones ?g))
         else score)
      else score (getStone sts coords := score (getStone sts coords) + length (stones ?g))))"
    using assms by (simp add: areaStep_def Let_def)
  then show ?thesis by (simp only: score)
qed

lemma area_inv_step:
  assumes inv: "area_inv sts sz (visited, score)" and ib: "inBounds sz coords"
  shows "area_inv sts sz (areaStep sts sz coords (visited, score))
    \<and> set visited \<union> {coords} \<subseteq> set (fst (areaStep sts sz coords (visited, score)))"
proof (cases "coords \<in> set visited")
  case True
  then have "areaStep sts sz coords (visited, score) = (visited, score)"
    by (simp add: areaStep_def Let_def)
  with inv True show ?thesis by simp
next
  case False
  let ?g = "getGroup sts sz coords"
  let ?G = "component sts sz coords"
  let ?V = "set visited \<union> ?G"
  from inv have d: "distinct visited" and sub: "set visited \<subseteq> grid sz"
    and cl: "\<And>q. q \<in> set visited \<Longrightarrow> component sts sz q \<subseteq> set visited"
    and sc: "\<And>col. score col = card {p. p \<in> set visited \<and> counts_for sts sz col p}"
    unfolding area_inv_def by auto
  have G: "set (stones ?g) = ?G" by (rule getGroup_stones)
  have Gsub: "?G \<subseteq> grid sz"
    using ib by (auto simp: grid_def dest: component_inBounds)
  have disj: "set visited \<inter> ?G = {}"
  proof (rule ccontr)
    assume "set visited \<inter> ?G \<noteq> {}"
    then obtain q where qv: "q \<in> set visited" and qg: "q \<in> ?G" by auto
    from ib qg have "coords \<in> component sts sz q" by (rule component_sym)
    with cl[OF qv] have "coords \<in> set visited" by auto
    with False show False by simp
  qed
  have finG: "finite ?G" using Gsub finite_grid by (rule finite_subset)
  have step: "areaStep sts sz coords (visited, score) =
    (iset_union visited (stones ?g),
     \<lambda>col. score col + (if counts_for sts sz col coords then length (stones ?g) else 0))"
    using False by (rule areaStep_fresh)
  have 1: "distinct (iset_union visited (stones ?g))"
    using d by (rule distinct_iset_union)
  have V: "set (iset_union visited (stones ?g)) = ?V"
    by (simp add: set_iset_union G)
  have 2: "?V \<subseteq> grid sz" using sub Gsub by simp
  have 3: "component sts sz q \<subseteq> ?V" if "q \<in> ?V" for q
  proof (cases "q \<in> set visited")
    case True
    with cl[OF True] show ?thesis by auto
  next
    case False
    with that have "q \<in> ?G" by simp
    with ib have "component sts sz q = ?G" by (rule component_eq)
    then show ?thesis by simp
  qed
  have 4: "score col + (if counts_for sts sz col coords then length (stones ?g) else 0)
      = card {p. p \<in> ?V \<and> counts_for sts sz col p}" for col
  proof -
    have inG: "{p. p \<in> ?G \<and> counts_for sts sz col p}
        = (if counts_for sts sz col coords then ?G else {})"
      using counts_for_eq[OF ib, of _ sts col] by auto
    have split: "{p. p \<in> ?V \<and> counts_for sts sz col p}
        = {p. p \<in> set visited \<and> counts_for sts sz col p}
          \<union> {p. p \<in> ?G \<and> counts_for sts sz col p}"
      by auto
    have "card {p. p \<in> ?V \<and> counts_for sts sz col p}
        = card {p. p \<in> set visited \<and> counts_for sts sz col p}
          + card {p. p \<in> ?G \<and> counts_for sts sz col p}"
      unfolding split using disj finG by (intro card_Un_disjoint) auto
    also have "card {p. p \<in> ?G \<and> counts_for sts sz col p}
        = (if counts_for sts sz col coords then length (stones ?g) else 0)"
      unfolding inG by (simp add: getGroup_size)
    finally show ?thesis by (simp add: sc)
  qed
  have "area_inv sts sz (areaStep sts sz coords (visited, score))"
    unfolding step area_inv_def fst_conv snd_conv V using 1 2 3 4 by (simp add: V)
  moreover have "set visited \<union> {coords} \<subseteq> set (fst (areaStep sts sz coords (visited, score)))"
    unfolding step fst_conv V by (auto simp: component_refl)
  ultimately show ?thesis by simp
qed

lemma area_inv_fold:
  "area_inv sts sz vs \<Longrightarrow> set ps \<subseteq> grid sz \<Longrightarrow>
   area_inv sts sz (fold (areaStep sts sz) ps vs)
   \<and> set (fst vs) \<union> set ps \<subseteq> set (fst (fold (areaStep sts sz) ps vs))"
proof (induction ps arbitrary: vs)
  case Nil
  then show ?case by simp
next
  case (Cons p ps)
  obtain visited score where vs: "vs = (visited, score)" by (cases vs)
  from Cons.prems(2) have ib: "inBounds sz p" by (simp add: grid_def)
  from area_inv_step[OF Cons.prems(1)[unfolded vs] ib]
  have inv': "area_inv sts sz (areaStep sts sz p vs)"
    and grow: "set (fst vs) \<union> {p} \<subseteq> set (fst (areaStep sts sz p vs))"
    unfolding vs by simp_all
  from Cons.prems(2) have "set ps \<subseteq> grid sz" by simp
  from Cons.IH[OF inv' this] grow show ?case by auto
qed

lemma areaScore_card:
  assumes "0 \<le> b_size b"
  shows "areaScore b col = card {p. inBounds (b_size b) p \<and> counts_for (b_stones b) (b_size b) col p}"
proof -
  let ?r = "fold (areaStep (b_stones b) (b_size b)) (allPositions (b_size b)) ([], \<lambda>c. 0)"
  have init: "area_inv (b_stones b) (b_size b) ([], \<lambda>c. 0)"
    by (simp add: area_inv_def)
  have "set (allPositions (b_size b)) \<subseteq> grid (b_size b)"
    using assms by (simp add: set_allPositions)
  from area_inv_fold[OF init this]
  have inv: "area_inv (b_stones b) (b_size b) ?r"
    and all: "set (allPositions (b_size b)) \<subseteq> set (fst ?r)"
    by simp_all
  from inv have "set (fst ?r) \<subseteq> grid (b_size b)" by (simp add: area_inv_def)
  with all assms have "set (fst ?r) = grid (b_size b)" by (simp add: set_allPositions)
  moreover from inv have "snd ?r col
      = card {p. p \<in> set (fst ?r) \<and> counts_for (b_stones b) (b_size b) col p}"
    by (simp add: area_inv_def)
  ultimately show ?thesis by (simp add: areaScore_def grid_def)
qed

lemma not_counts_for_EMPTY: "\<not> counts_for sts sz EMPTY coords"
proof
  assume "counts_for sts sz EMPTY coords"
  then have e: "getStone sts coords = EMPTY" and b: "borderColors sts sz coords = {EMPTY}"
    by (simp_all add: counts_for_def)
  from b have "EMPTY \<in> borderColors sts sz coords" by simp
  then have "EMPTY \<noteq> getStone sts coords" by (rule borderColors_other)
  with e show False by simp
qed

lemma areaStep_EMPTY:
  assumes "snd vs EMPTY = 0"
  shows "snd (areaStep sts sz coords vs) EMPTY = 0"
proof (cases "coords \<in> set (fst vs)")
  case True
  then have "areaStep sts sz coords vs = vs"
    by (simp add: areaStep_def Let_def)
  with assms show ?thesis by simp
next
  case False
  have "areaStep sts sz coords (fst vs, snd vs) =
    (iset_union (fst vs) (stones (getGroup sts sz coords)),
     \<lambda>col. snd vs col + (if counts_for sts sz col coords
                         then length (stones (getGroup sts sz coords)) else 0))"
    using False by (rule areaStep_fresh)
  then have "snd (areaStep sts sz coords vs) EMPTY =
     snd vs EMPTY + (if counts_for sts sz EMPTY coords
                         then length (stones (getGroup sts sz coords)) else 0)"
    by simp
  also have "\<dots> = 0" using assms by (simp add: not_counts_for_EMPTY)
  finally show ?thesis .
qed

lemma fold_areaStep_EMPTY:
  "snd vs EMPTY = 0 \<Longrightarrow> snd (fold (areaStep sts sz) ps vs) EMPTY = 0"
proof (induction ps arbitrary: vs)
  case Nil
  then show ?case by simp
next
  case (Cons p ps)
  from Cons.prems have "snd (areaStep sts sz p vs) EMPTY = 0" by (rule areaStep_EMPTY)
  then have "snd (fold (areaStep sts sz) ps (areaStep sts sz p vs)) EMPTY = 0"
    by (rule Cons.IH)
  then show ?case by simp
qed

lemma areaScore_EMPTY: "areaScore b EMPTY = 0"
  unfolding areaScore_def by (rule fold_areaStep_EMPTY) simp

lemma createBoard_size: "createBoard sz sts = Inr b \<Longrightarrow> 0 \<le> b_size b"
  by (auto simp: createBoard_def split: option.splits if_splits)

text \<open>
  Claim C6. The board is one that \<^verbatim>\<open>createBoard\<close> returns. One pass of the loop of \<^verbatim>\<open>areaScore\<close> at a seed that is not visited yet
  adds the size of the seed's region to the score of colour c exactly when the seed holds
  a stone of colour c, or the seed is EMPTY and c is the one colour in the region's
  surrounding map; with no colour or several colours around an empty region no score
  changes. Summed over the board, the score of BLACK or WHITE is the number of its stones
  plus the number of empty intersections whose region is bordered by that colour alone.
\<close>

theorem areaScore_regions:
  assumes "createBoard sz sts = Inr b" and "col = BLACK \<or> col = WHITE"
  shows "areaScore b col =
      card {p. inBounds (b_size b) p \<and> getStone (b_stones b) p = col}
      + card {p. inBounds (b_size b) p \<and> getStone (b_stones b) p = EMPTY
                \<and> borderColors (b_stones b) (b_size b) p = {col}}
    \<and> (\<forall>visited score coords. coords \<notin> set visited \<longrightarrow>
          areaStep (b_stones b) (b_size b) coords (visited, score) =
            (iset_union visited (stones (getGroup (b_stones b) (b_size b) coords)),
             \<lambda>c. score c +
               (if (getStone (b_stones b) coords = c \<and> c \<noteq> EMPTY)
                   \<or> (getStone (b_stones b) coords = EMPTY
                       \<and> borderColors (b_stones b) (b_size b) coords = {c})
                then length (stones (getGroup (b_stones b) (b_size b) coords)) else 0)))"
proof (intro conjI allI impI)
  let ?A = "{p. inBounds (b_size b) p \<and> getStone (b_stones b) p = col}"
  let ?B = "{p. inBounds (b_size b) p \<and> getStone (b_stones b) p = EMPTY
                \<and> borderColors (b_stones b) (b_size b) p = {col}}"
  have fin: "finite ?A" "finite ?B"
    using finite_grid[of "b_size b"] by (auto simp: grid_def)
  have disj: "?A \<inter> ?B = {}" using assms(2) by auto
  have "{p. inBounds (b_size b) p \<and> counts_for (b_stones b) (b_size b) col p} = ?A \<union> ?B"
    using assms(2) by (auto simp: counts_for_def)
  then have "areaScore b col = card (?A \<union> ?B)"
    by (simp add: areaScore_card[OF createBoard_size[OF assms(1)]])
  also have "\<dots> = card ?A + card ?B"
    using fin disj by (rule card_Un_disjoint)
  finally show "areaScore b col = card ?A + card ?B" .
next
  fix visited :: "point list" and score :: "color \<Rightarrow> nat" and coords
  assume "coords \<notin> set visited"
  then show "areaStep (b_stones b) (b_size b) coords (visited, score) =
            (iset_union visited (stones (getGroup (b_stones b) (b_size b) coords)),
             \<lambda>c. score c +
               (if (getStone (b_stones b) coords = c \<and> c \<noteq> EMPTY)
                   \<or> (getStone (b_stones b) coords = EMPTY
                       \<and> borderColors (b_stones b) (b_size b) coords = {c})
                then length (stones (getGroup (b_stones b) (b_size b) coords)) else 0))"
    by (simp add: areaStep_fresh counts_for_def)
qed

theorem areaScore_regions_witness:
  "createBoard (Some 2) (Some [(Point 0 1, BLACK)])
     = Inr \<lparr>b_size = 2, b_stones = [(Point 0 1, BLACK)]\<rparr>
   \<and> areaScore \<lparr>b_size = 2, b_stones = [(Point 0 1, BLACK)]\<rparr> BLACK = 4
   \<and> card {p. inBounds 2 p \<and> getStone [(Point 0 1, BLACK)] p = BLACK}
     + card {p. inBounds 2 p \<and> getStone [(Point 0 1, BLACK)] p = EMPTY
        \<and> borderColors [(Point 0 1, BLACK)] 2 p = {BLACK}} = 4
   \<and> fst (areaStep [(Point 0 1, BLACK)] 2 (Point 0 0) ([], \<lambda>c. 0))
       = [Point 0 0, Point 1 0, Point 1 1]
   \<and> snd (areaStep [(Point 0 1, BLACK)] 2 (Point 0 0) ([], \<lambda>c. 0)) BLACK = 3
   \<and> snd (areaStep [(Point 0 1, BLACK)] 2 (Point 0 0) ([], \<lambda>c. 0)) WHITE = 0"
proof -
  let ?sts = "[(Point 0 1, BLACK)]"
  let ?b = "\<lparr>b_size = 2, b_stones = ?sts\<rparr>"
  have h1: "createBoard (Some 2) (Some ?sts) = Inr ?b" by (simp add: createBoard_def)
  have h2: "BLACK = BLACK \<or> BLACK = WHITE" by simp
  have v: "areaScore ?b BLACK = 4" by code_simp
  have e: "getStone ?sts (Point 0 0) = EMPTY" by code_simp
  have bc: "borderColors ?sts 2 (Point 0 0) = {BLACK}" by code_simp
  have g: "stones (getGroup ?sts 2 (Point 0 0)) = [Point 0 0, Point 1 0, Point 1 1]"
    by code_simp
  have u: "iset_union [] [Point 0 0, Point 1 0, Point 1 1] = [Point 0 0, Point 1 0, Point 1 1]"
    by code_simp
  have a: "areaScore ?b BLACK =
      card {p. inBounds 2 p \<and> getStone ?sts p = BLACK}
      + card {p. inBounds 2 p \<and> getStone ?sts p = EMPTY \<and> borderColors ?sts 2 p = {BLACK}}"
    using areaScore_regions[OF h1 h2, THEN conjunct1] by simp
  have s: "areaStep ?sts 2 (Point 0 0) ([], \<lambda>c. 0) =
        (iset_union [] (stones (getGroup ?sts 2 (Point 0 0))),
         \<lambda>c. 0 + (if (getStone ?sts (Point 0 0) = c \<and> c \<noteq> EMPTY)
                     \<or> (getStone ?sts (Point 0 0) = EMPTY \<and> borderColors ?sts 2 (Point 0 0) = {c})
                  then length (stones (getGroup ?sts 2 (Point 0 0))) else 0))"
    using areaScore_regions[OF h1 h2, THEN conjunct2, rule_format, of "Point 0 0" "[]" "\<lambda>c. 0"]
    by (simp cong: if_cong)
  have s': "areaStep ?sts 2 (Point 0 0) ([], \<lambda>c. 0) =
        ([Point 0 0, Point 1 0, Point 1 1],
         \<lambda>c. 0 + (if (EMPTY = c \<and> c \<noteq> EMPTY) \<or> (EMPTY = EMPTY \<and> {BLACK} = {c})
                  then length [Point 0 0, Point 1 0, Point 1 1] else 0))"
    using s by (simp only: e bc g u)
  show ?thesis
  proof (intro conjI)
    show "createBoard (Some 2) (Some ?sts) = Inr ?b" by (rule h1)
    show "areaScore ?b BLACK = 4" by (rule v)
    show "card {p. inBounds 2 p \<and> getStone ?sts p = BLACK}
      + card {p. inBounds 2 p \<and> getStone ?sts p = EMPTY \<and> borderColors ?sts 2 p = {BLACK}} = 4"
      using a v by (rule trans[OF sym])
    show "fst (areaStep ?sts 2 (Point 0 0) ([], \<lambda>c. 0)) = [Point 0 0, Point 1 0, Point 1 1]"
      by (simp add: s')
    show "snd (areaStep ?sts 2 (Point 0 0) ([], \<lambda>c. 0)) BLACK = 3"
      by (simp add: s')
    show "snd (areaStep ?sts 2 (Point 0 0) ([], \<lambda>c. 0)) WHITE = 0"
      by (simp add: s')
  qed
qed

lemma counted_union:
  "{p. inBounds sz p \<and> counts_for sts sz BLACK p} \<union> {p. inBounds sz p \<and> counts_for sts sz WHITE p}
     = {p. inBounds sz p \<and> (getStone sts p \<noteq> EMPTY \<or> card (borderColors sts sz p) = 1)}"
proof -
  have "counts_for sts sz BLACK p \<or> counts_for sts sz WHITE p
      \<longleftrightarrow> getStone sts p \<noteq> EMPTY \<or> card (borderColors sts sz p) = 1" for p
  proof (cases "getStone sts p = EMPTY")
    case False
    then have "getStone sts p = BLACK \<or> getStone sts p = WHITE"
      by (cases "getStone sts p") simp_all
    with False show ?thesis by (auto simp: counts_for_def)
  next
    case True
    have "card (borderColors sts sz p) = 1
        \<longleftrightarrow> borderColors sts sz p = {BLACK} \<or> borderColors sts sz p = {WHITE}"
    proof
      assume "card (borderColors sts sz p) = 1"
      then obtain c where c: "borderColors sts sz p = {c}"
        by (auto simp: card_1_singleton_iff)
      then have "c \<in> borderColors sts sz p" by simp
      then have "c \<noteq> getStone sts p" by (rule borderColors_other)
      with True have "c = BLACK \<or> c = WHITE" by (cases c) simp_all
      with c show "borderColors sts sz p = {BLACK} \<or> borderColors sts sz p = {WHITE}"
        by blast
    next
      assume "borderColors sts sz p = {BLACK} \<or> borderColors sts sz p = {WHITE}"
      then show "card (borderColors sts sz p) = 1" by (elim disjE) simp_all
    qed
    with True show ?thesis by (simp add: counts_for_def)
  qed
  then show ?thesis by blast
qed

lemma counted_disjoint:
  "{p. inBounds sz p \<and> counts_for sts sz BLACK p} \<inter> {p. inBounds sz p \<and> counts_for sts sz WHITE p}
     = {}"
proof -
  have "\<not> (counts_for sts sz BLACK p \<and> counts_for sts sz WHITE p)" for p
  proof
    assume a: "counts_for sts sz BLACK p \<and> counts_for sts sz WHITE p"
    then have cb: "counts_for sts sz BLACK p" and cw: "counts_for sts sz WHITE p"
      by (rule conjunct1, rule conjunct2)
    show False
    proof (cases "getStone sts p = EMPTY")
      case True
      from cb True have "borderColors sts sz p = {BLACK}" by (simp add: counts_for_def)
      moreover from cw True have "borderColors sts sz p = {WHITE}" by (simp add: counts_for_def)
      ultimately have "{BLACK} = {WHITE}" by (rule trans[OF sym])
      then show False by simp
    next
      case False
      from cb False have "getStone sts p = BLACK" by (simp add: counts_for_def)
      moreover from cw False have "getStone sts p = WHITE" by (simp add: counts_for_def)
      ultimately have "BLACK = WHITE" by (rule trans[OF sym])
      then show False by simp
    qed
  qed
  then show ?thesis by blast
qed

lemma areaScore_total:
  assumes "0 \<le> b_size b"
  shows "areaScore b BLACK + areaScore b WHITE
    = card {p. inBounds (b_size b) p
               \<and> (getStone (b_stones b) p \<noteq> EMPTY
                   \<or> card (borderColors (b_stones b) (b_size b) p) = 1)}"
proof -
  let ?B = "{p. inBounds (b_size b) p \<and> counts_for (b_stones b) (b_size b) BLACK p}"
  let ?W = "{p. inBounds (b_size b) p \<and> counts_for (b_stones b) (b_size b) WHITE p}"
  have fin: "finite ?B" "finite ?W"
    using finite_grid[of "b_size b"] by (auto simp: grid_def)
  have "areaScore b BLACK + areaScore b WHITE = card ?B + card ?W"
    by (simp add: areaScore_card[OF assms])
  also have "\<dots> = card (?B \<union> ?W)"
    using fin counted_disjoint by (rule card_Un_disjoint[symmetric])
  finally show ?thesis by (simp only: counted_union)
qed

text \<open>
  Claim C7. On a board that \<^verbatim>\<open>createBoard\<close> returns the two scores add up to the number of
  intersections that hold a stone or lie in an empty region bordered by exactly one colour;
  each such intersection is counted once. So the sum is at most the square of the size,
  and it equals the square exactly when every empty intersection lies in a region bordered
  by exactly one colour.
\<close>

theorem areaScore_conserves_area:
  assumes "createBoard sz sts = Inr b"
  shows "int (areaScore b BLACK + areaScore b WHITE) \<le> b_size b * b_size b
    \<and> (int (areaScore b BLACK + areaScore b WHITE) = b_size b * b_size b
         \<longleftrightarrow> (\<forall>p. inBounds (b_size b) p \<and> getStone (b_stones b) p = EMPTY
                  \<longrightarrow> card (borderColors (b_stones b) (b_size b) p) = 1))
    \<and> areaScore b BLACK + areaScore b WHITE
        = card {p. inBounds (b_size b) p
                   \<and> (getStone (b_stones b) p \<noteq> EMPTY
                       \<or> card (borderColors (b_stones b) (b_size b) p) = 1)}"
proof -
  let ?T = "{p. inBounds (b_size b) p
               \<and> (getStone (b_stones b) p \<noteq> EMPTY
                   \<or> card (borderColors (b_stones b) (b_size b) p) = 1)}"
  have size: "0 \<le> b_size b"
    using assms by (rule createBoard_size)
  have tot: "areaScore b BLACK + areaScore b WHITE = card ?T"
    using size by (rule areaScore_total)
  have sub: "?T \<subseteq> grid (b_size b)" by (auto simp: grid_def)
  have fin: "finite (grid (b_size b))" by (rule finite_grid)
  have le: "card ?T \<le> card (grid (b_size b))"
    using fin sub by (rule card_mono)
  have sq: "int (card (grid (b_size b))) = b_size b * b_size b"
    using size by (rule card_grid)
  have 1: "int (areaScore b BLACK + areaScore b WHITE) \<le> b_size b * b_size b"
    using le unfolding tot sq[symmetric] by simp
  have "card ?T = card (grid (b_size b)) \<longleftrightarrow> ?T = grid (b_size b)"
    using card_subset_eq[OF fin sub] by auto
  also have "\<dots> \<longleftrightarrow> (\<forall>p. inBounds (b_size b) p \<and> getStone (b_stones b) p = EMPTY
                  \<longrightarrow> card (borderColors (b_stones b) (b_size b) p) = 1)"
    by (auto simp: grid_def)
  finally have 2: "int (areaScore b BLACK + areaScore b WHITE) = b_size b * b_size b
         \<longleftrightarrow> (\<forall>p. inBounds (b_size b) p \<and> getStone (b_stones b) p = EMPTY
                  \<longrightarrow> card (borderColors (b_stones b) (b_size b) p) = 1)"
    unfolding tot sq[symmetric] by simp
  from 1 2 tot show ?thesis by blast
qed

theorem areaScore_conserves_area_witness:
  "createBoard (Some 2) (Some [(Point 0 0, BLACK), (Point 1 1, WHITE)])
     = Inr \<lparr>b_size = 2, b_stones = [(Point 0 0, BLACK), (Point 1 1, WHITE)]\<rparr>
   \<and> areaScore \<lparr>b_size = 2, b_stones = [(Point 0 0, BLACK), (Point 1 1, WHITE)]\<rparr> BLACK = 1
   \<and> areaScore \<lparr>b_size = 2, b_stones = [(Point 0 0, BLACK), (Point 1 1, WHITE)]\<rparr> WHITE = 1
   \<and> int (areaScore \<lparr>b_size = 2, b_stones = [(Point 0 0, BLACK), (Point 1 1, WHITE)]\<rparr> BLACK
        + areaScore \<lparr>b_size = 2, b_stones = [(Point 0 0, BLACK), (Point 1 1, WHITE)]\<rparr> WHITE)
       \<le> 2 * 2
   \<and> card (borderColors [(Point 0 0, BLACK), (Point 1 1, WHITE)] 2 (Point 0 1)) = 2
   \<and> areaScore \<lparr>b_size = 2, b_stones = [(Point 0 1, BLACK)]\<rparr> BLACK = 4
   \<and> areaScore \<lparr>b_size = 2, b_stones = [(Point 0 1, BLACK)]\<rparr> WHITE = 0"
proof -
  let ?b = "\<lparr>b_size = 2, b_stones = [(Point 0 0, BLACK), (Point 1 1, WHITE)]\<rparr>"
  have h: "createBoard (Some 2) (Some [(Point 0 0, BLACK), (Point 1 1, WHITE)]) = Inr ?b"
    by (simp add: createBoard_def)
  have le: "int (areaScore ?b BLACK + areaScore ?b WHITE) \<le> 2 * 2"
    using areaScore_conserves_area[OF h, THEN conjunct1] by simp
  have v1: "areaScore ?b BLACK = 1" by code_simp
  have v2: "areaScore ?b WHITE = 1" by code_simp
  have c: "card (borderColors [(Point 0 0, BLACK), (Point 1 1, WHITE)] 2 (Point 0 1)) = 2"
    by code_simp
  have v3: "areaScore \<lparr>b_size = 2, b_stones = [(Point 0 1, BLACK)]\<rparr> BLACK = 4" by code_simp
  have v4: "areaScore \<lparr>b_size = 2, b_stones = [(Point 0 1, BLACK)]\<rparr> WHITE = 0" by code_simp
  show ?thesis
    by (intro conjI h v1 v2 le c v3 v4)
qed

end
